theory Spec2Isabelle
  imports Complex_Main "HOL-Library.AList" "HOL-Library.Sublist" "HOL-Library.Char_ord"
    "HOL-Library.List_Lexorder" "HOL-Library.Multiset"
begin

section \<open>Python values, exceptions and results\<close>

text \<open>
  The inventory, the index and the hostvars of \<^verbatim>\<open>jelastic.py\<close> are untyped Python
  objects built from dicts, lists and strings. They are modelled by one datatype of
  Python values. A dict is an association list in the dict's iteration order; a dict
  has every key once, and the operations below (\<open>map_of\<close>, \<open>AList.update\<close>) read and
  write the first entry of a key. Python's \<^verbatim>\<open>bool\<close> is a subclass of \<^verbatim>\<open>int\<close> and is
  not given a constructor of its own; floats do not occur in the structures the script
  builds.
\<close>

datatype pyval =
    PNone
  | PInt int
  | PStr string
  | PList "pyval list"
  | PDict "(string \<times> pyval) list"

type_synonym dict = "(string \<times> pyval) list"

datatype exn =
    SystemExit
  | AttributeError
  | KeyError
  | TypeError
  | ValueError
  | IOError
  | UnicodeDecodeError
  | UnboundLocalError
  | OverflowError

datatype 'a res = Ret 'a | Raise exn

text \<open>Sequencing of two steps that may raise: an exception ends the sequence and keeps
  the state reached so far (mutations made before a raise stay made).\<close>

definition andThen ::
  "('s \<Rightarrow> 'a res \<times> 's) \<Rightarrow> ('a \<Rightarrow> 's \<Rightarrow> 'b res \<times> 's) \<Rightarrow> 's \<Rightarrow> 'b res \<times> 's" where
  "andThen m f s = (case m s of (Ret a, s') \<Rightarrow> f a s' | (Raise e, s') \<Rightarrow> (Raise e, s'))"

definition ret :: "'a \<Rightarrow> 's \<Rightarrow> 'a res \<times> 's" where
  "ret a s = (Ret a, s)"

subsection \<open>The dict and container operations the script uses\<close>

text \<open>\<^verbatim>\<open>d.setdefault(k, v)\<close>: the value stored under \<open>k\<close>, storing \<open>v\<close> first when the
  key is absent. Returns the value and the dict after the call.\<close>

definition setdefault :: "dict \<Rightarrow> string \<Rightarrow> pyval \<Rightarrow> pyval \<times> dict" where
  "setdefault d k v = (case map_of d k of Some x \<Rightarrow> (x, d) | None \<Rightarrow> (v, d @ [(k, v)]))"

text \<open>\<^verbatim>\<open>len(x)\<close>.\<close>

definition py_len :: "pyval \<Rightarrow> exn + nat" where
  "py_len x = (case x of
      PDict d \<Rightarrow> Inr (length d)
    | PList xs \<Rightarrow> Inr (length xs)
    | PStr t \<Rightarrow> Inr (length t)
    | _ \<Rightarrow> Inl TypeError)"

text \<open>\<^verbatim>\<open>k in x\<close> for a string \<open>k\<close>: key membership in a dict, element membership in
  a list, substring test in a string.\<close>

definition py_contains :: "pyval \<Rightarrow> string \<Rightarrow> exn + bool" where
  "py_contains x k = (case x of
      PDict d \<Rightarrow> Inr (k \<in> fst ` set d)
    | PList xs \<Rightarrow> Inr (PStr k \<in> set xs)
    | PStr t \<Rightarrow> Inr (sublist k t)
    | _ \<Rightarrow> Inl TypeError)"

text \<open>\<^verbatim>\<open>x[k]\<close> for a string \<open>k\<close>.\<close>

definition py_getitem :: "pyval \<Rightarrow> string \<Rightarrow> exn + pyval" where
  "py_getitem x k = (case x of
      PDict d \<Rightarrow> (case map_of d k of None \<Rightarrow> Inl KeyError | Some v \<Rightarrow> Inr v)
    | _ \<Rightarrow> Inl TypeError)"

text \<open>\<^verbatim>\<open>x[k] = v\<close> for a string \<open>k\<close>.\<close>

definition py_setitem :: "pyval \<Rightarrow> string \<Rightarrow> pyval \<Rightarrow> exn + pyval" where
  "py_setitem x k v = (case x of
      PDict d \<Rightarrow> Inr (PDict (AList.update k v d))
    | _ \<Rightarrow> Inl TypeError)"

text \<open>\<^verbatim>\<open>(a, b) = x\<close>: unpacking into exactly two targets iterates \<open>x\<close> (a list gives its
  elements, a string its characters, a dict its keys).\<close>

definition unpack2 :: "pyval \<Rightarrow> exn + pyval \<times> pyval" where
  "unpack2 x = (case x of
      PList xs \<Rightarrow> (case xs of [a, b] \<Rightarrow> Inr (a, b) | _ \<Rightarrow> Inl ValueError)
    | PStr t \<Rightarrow> (case t of [a, b] \<Rightarrow> Inr (PStr [a], PStr [b]) | _ \<Rightarrow> Inl ValueError)
    | PDict d \<Rightarrow> (case d of [a, b] \<Rightarrow> Inr (PStr (fst a), PStr (fst b)) | _ \<Rightarrow> Inl ValueError)
    | _ \<Rightarrow> Inl TypeError)"

text \<open>\<^verbatim>\<open>s.startswith(p)\<close>.\<close>

definition startswith :: "string \<Rightarrow> string \<Rightarrow> bool" where
  "startswith s p \<longleftrightarrow> take (length p) s = p"

section \<open>Provider records, settings and the state of the script\<close>

text \<open>
  The records of the provider's environment listing, as \<^verbatim>\<open>add_environment\<close> and
  \<^verbatim>\<open>add_node\<close> read them: \<^verbatim>\<open>environment['env']\<close> with \<^verbatim>\<open>status\<close>, \<^verbatim>\<open>domain\<close>,
  \<^verbatim>\<open>shortdomain\<close>, \<^verbatim>\<open>uid\<close>, and \<^verbatim>\<open>environment['nodes']\<close>, each with \<^verbatim>\<open>address\<close> (which
  may be null), \<^verbatim>\<open>id\<close> and \<^verbatim>\<open>nodeType\<close>. Identifiers are kept as the text that
  \<^verbatim>\<open>"{}-{}".format\<close> renders.
\<close>

record env_info =
  status :: int
  domain :: string
  shortdomain :: string
  uid :: string

record node =
  id' :: string
  address :: "string option"
  nodeType :: string

record environment =
  env :: env_info
  nodes :: "node list"

text \<open>A decoded reply of the provider's REST interface. Every key may be missing, and
  reading a missing key raises \<^verbatim>\<open>KeyError\<close>.\<close>

record api_result =
  r_result :: "int option"
  r_error :: "string option"
  r_session :: "string option"
  r_infos :: "environment list option"

text \<open>The attributes that \<^verbatim>\<open>read_settings\<close> initialises.\<close>

record settings =
  app_url :: string
  app_id :: string
  cache_path_cache :: string
  cache_path_index :: string
  cache_max_age :: int
  jelastic_ssh_gateway :: string
  jelastic_ssh_port :: string
  group_by_environment_id :: bool
  group_by_node_type :: bool
  group_by_node_class :: bool
  container_mapping :: "(string \<times> string) list"

text \<open>The attributes that \<^verbatim>\<open>parse_cli_args\<close> initialises.\<close>

record args =
  list' :: bool
  host :: "string option"
  refresh_cache :: bool

record file_entry =
  mtime :: real
  content :: string

text \<open>What the program does that can be observed from outside, in order: calls of
  \<^verbatim>\<open>login\<close>, \<^verbatim>\<open>logout\<close> and \<^verbatim>\<open>do_api_calls_update_cache\<close>, and every
  \<^verbatim>\<open>urllib.urlopen\<close> with its URL prefix and its payload.\<close>

datatype event =
    Login
  | Logout
  | Refresh
  | Urlopen string "(string \<times> string) list"

text \<open>
  A Python float is a double: a finite one is the real number it denotes, and a sum of
  two finite doubles is a finite double or an infinity. \<^verbatim>\<open>x > y\<close> for a float \<open>x\<close> and a
  finite \<open>y\<close> is strict.
\<close>

datatype pyfloat = Finite real | PosInf | NegInf

fun float_gt :: "pyfloat \<Rightarrow> real \<Rightarrow> bool" where
  "float_gt (Finite x) y = (x > y)"
| "float_gt PosInf y = True"
| "float_gt NegInf y = False"

text \<open>
  The surroundings of one run: the clock (\<^verbatim>\<open>time()\<close>, a finite double), the addition
  of Python's floats (\<open>float_add x n\<close> is the outcome of \<^verbatim>\<open>x + n\<close> for a finite float
  \<open>x\<close> and an int \<open>n\<close>: the int is converted to a double, which raises
  \<^verbatim>\<open>OverflowError\<close> when it is too large, and the sum is rounded to a double), the two
  credentials of \<^verbatim>\<open>os.environ\<close>,
  the provider (the decoded reply, or the exception, of one \<^verbatim>\<open>urlopen\<close> followed by
  \<^verbatim>\<open>json.load\<close>, which may depend on everything that happened before), and the two
  functions of Python's \<^verbatim>\<open>json\<close> module: \<open>json_dumps True\<close> is
  \<^verbatim>\<open>json.dumps(data, sort_keys=True, indent=2)\<close>, \<open>json_dumps False\<close> is
  \<^verbatim>\<open>json.dumps(data)\<close>.
\<close>

record extern =
  now :: real
  float_add :: "real \<Rightarrow> int \<Rightarrow> exn + pyfloat"
  JELASTIC_USER_ID :: "string option"
  JELASTIC_USER_PASSWORD :: "string option"
  urlopen :: "event list \<Rightarrow> string \<Rightarrow> (string \<times> string) list \<Rightarrow> exn + api_result"
  json_dumps :: "bool \<Rightarrow> pyval \<Rightarrow> string"
  json_loads :: "string \<Rightarrow> exn + pyval"

text \<open>The mutable attributes of the \<^verbatim>\<open>JelasticInventory\<close> object, the regular files of
  the file system, and the events so far.\<close>

record state =
  inventory :: dict
  index :: pyval
  session :: "api_result option"
  files :: "string \<Rightarrow> file_entry option"
  trace :: "event list"

definition empty_inventory :: dict where
  "empty_inventory = [(''_meta'', PDict [(''hostvars'', PDict [])])]"

text \<open>The object as \<^verbatim>\<open>__init__\<close> sets it up before any call, over a given file system.\<close>

definition init_state :: "(string \<Rightarrow> file_entry option) \<Rightarrow> state" where
  "init_state fs = \<lparr>inventory = empty_inventory, index = PDict [], session = None,
     files = fs, trace = []\<rparr>"

definition log_event :: "event \<Rightarrow> state \<Rightarrow> state" where
  "log_event ev s = s\<lparr>trace := trace s @ [ev]\<rparr>"

section \<open>Cache validity\<close>

text \<open>\<^verbatim>\<open>is_cache_valid\<close>: \<^verbatim>\<open>os.path.isfile\<close> is membership in the file system;
  the sum \<^verbatim>\<open>mod_time + self.cache_max_age\<close> is the float addition of the surroundings,
  whose exception leaves the method.\<close>

definition is_cache_valid :: "settings \<Rightarrow> extern \<Rightarrow> state \<Rightarrow> bool res" where
  "is_cache_valid cfg w s =
     (case files s (cache_path_cache cfg) of
        Some f \<Rightarrow>
          (let mod_time = mtime f; current_time = now w in
           case float_add w mod_time (cache_max_age cfg) of
             Inl e \<Rightarrow> Raise e
           | Inr expiry \<Rightarrow>
               if float_gt expiry current_time
               then (if files s (cache_path_index cfg) \<noteq> None then Ret True else Ret False)
               else Ret False)
      | None \<Rightarrow> Ret False)"

section \<open>Grouping\<close>

text \<open>\<^verbatim>\<open>map_node_class\<close>: \<open>container_mapping\<close> lists the items of the mapping dict in
  the order \<^verbatim>\<open>iteritems()\<close> yields them.\<close>

definition map_node_class :: "settings \<Rightarrow> string \<Rightarrow> string" where
  "map_node_class cfg nodeType' =
     (let matches = map snd (filter (\<lambda>kv. startswith nodeType' (fst kv)) (container_mapping cfg))
      in if matches = [] then ''unknown'' else hd matches)"

text \<open>\<^verbatim>\<open>push\<close>: the lists are mutated in place, so the model writes the extended list back
  where it was read. \<^verbatim>\<open>.append\<close> on anything but a list raises \<^verbatim>\<open>AttributeError\<close>; that
  happens only for a value that was already stored, so the dict is unchanged then.\<close>

definition push :: "dict \<Rightarrow> string \<Rightarrow> pyval \<Rightarrow> exn + dict" where
  "push my_dict key element =
     (let (group_info, d1) = setdefault my_dict key (PList []) in
      case group_info of
        PDict g \<Rightarrow>
          (let (host_list, g1) = setdefault g ''hosts'' (PList []) in
           case host_list of
             PList hs \<Rightarrow>
               Inr (AList.update key
                     (PDict (AList.update ''hosts'' (PList (hs @ [element])) g1)) d1)
           | _ \<Rightarrow> Inl AttributeError)
      | PList hs \<Rightarrow> Inr (AList.update key (PList (hs @ [element])) d1)
      | _ \<Rightarrow> Inl AttributeError)"

definition get_node_hostvars :: "settings \<Rightarrow> env_info \<Rightarrow> node \<Rightarrow> pyval" where
  "get_node_hostvars cfg ev nd =
     PDict [(''ansible_ssh_user'', PStr (id' nd @ ''-'' @ uid ev)),
            (''ansible_ssh_host'', PStr (jelastic_ssh_gateway cfg)),
            (''ansible_ssh_port'', PStr (jelastic_ssh_port cfg))]"

text \<open>\<^verbatim>\<open>self.inventory["_meta"]["hostvars"][dest] = v\<close>.\<close>

definition set_hostvars :: "dict \<Rightarrow> string \<Rightarrow> pyval \<Rightarrow> exn + dict" where
  "set_hostvars my_dict dest v =
     (case map_of my_dict ''_meta'' of
        None \<Rightarrow> Inl KeyError
      | Some meta \<Rightarrow>
          (case py_getitem meta ''hostvars'' of
             Inl e \<Rightarrow> Inl e
           | Inr hv \<Rightarrow>
               (case py_setitem hv dest v of
                  Inl e \<Rightarrow> Inl e
                | Inr hv' \<Rightarrow>
                    (case py_setitem meta ''hostvars'' hv' of
                       Inl e \<Rightarrow> Inl e
                     | Inr meta' \<Rightarrow> Inr (AList.update ''_meta'' meta' my_dict)))))"

definition on_inventory :: "(dict \<Rightarrow> exn + dict) \<Rightarrow> state \<Rightarrow> unit res \<times> state" where
  "on_inventory f s =
     (case f (inventory s) of
        Inl e \<Rightarrow> (Raise e, s)
      | Inr d \<Rightarrow> (Ret (), s\<lparr>inventory := d\<rparr>))"

definition on_index :: "(pyval \<Rightarrow> exn + pyval) \<Rightarrow> state \<Rightarrow> unit res \<times> state" where
  "on_index f s =
     (case f (index s) of
        Inl e \<Rightarrow> (Raise e, s)
      | Inr d \<Rightarrow> (Ret (), s\<lparr>index := d\<rparr>))"

definition add_node :: "settings \<Rightarrow> env_info \<Rightarrow> node \<Rightarrow> state \<Rightarrow> unit res \<times> state" where
  "add_node cfg ev nd s =
     (case address nd of
        None \<Rightarrow> (Ret (), s)
      | Some dest \<Rightarrow>
         andThen (on_index (\<lambda>i. py_setitem i dest (PList [PStr (domain ev), PStr (id' nd)])))
         (\<lambda>_. andThen (on_inventory (\<lambda>d. push d (domain ev) (PStr dest)))
         (\<lambda>_. andThen (on_inventory (\<lambda>d. push d (shortdomain ev) (PStr dest)))
         (\<lambda>_. andThen (if group_by_node_type cfg
                        then on_inventory (\<lambda>d. push d (nodeType nd) (PStr dest))
                        else ret ())
         (\<lambda>_. andThen (if group_by_node_class cfg
                        then on_inventory
                               (\<lambda>d. push d (map_node_class cfg (nodeType nd)) (PStr dest))
                        else ret ())
         (\<lambda>_. on_inventory
                 (\<lambda>d. set_hostvars d dest (get_node_hostvars cfg ev nd))))))) s)"

text \<open>The loop \<^verbatim>\<open>for node in environment['nodes']\<close>.\<close>

fun add_nodes :: "settings \<Rightarrow> env_info \<Rightarrow> node list \<Rightarrow> state \<Rightarrow> unit res \<times> state" where
  "add_nodes cfg ev [] s = (Ret (), s)"
| "add_nodes cfg ev (nd # nds) s =
     (case add_node cfg ev nd s of
        (Raise e, s') \<Rightarrow> (Raise e, s')
      | (Ret _, s') \<Rightarrow> add_nodes cfg ev nds s')"

definition add_environment :: "settings \<Rightarrow> environment \<Rightarrow> state \<Rightarrow> unit res \<times> state" where
  "add_environment cfg environment' s =
     (if status (env environment') \<noteq> 1 then (Ret (), s)
      else add_nodes cfg (env environment') (nodes environment') s)"

text \<open>The loop \<^verbatim>\<open>for environment in result['infos']\<close> of \<^verbatim>\<open>get_environments\<close>.\<close>

fun add_environments :: "settings \<Rightarrow> environment list \<Rightarrow> state \<Rightarrow> unit res \<times> state" where
  "add_environments cfg [] s = (Ret (), s)"
| "add_environments cfg (e # es) s =
     (case add_environment cfg e s of
        (Raise x, s') \<Rightarrow> (Raise x, s')
      | (Ret _, s') \<Rightarrow> add_environments cfg es s')"

section \<open>The provider session\<close>

text \<open>\<^verbatim>\<open>fail_with_error\<close> writes a message to standard error and calls \<^verbatim>\<open>sys.exit(1)\<close>,
  which raises \<^verbatim>\<open>SystemExit\<close>. The text of the message is not modelled.\<close>

definition fail_with_error :: "state \<Rightarrow> 'a res \<times> state" where
  "fail_with_error s = (Raise SystemExit, s)"

text \<open>
  The handler of \<^verbatim>\<open>logout\<close> and \<^verbatim>\<open>get_environments\<close> is a bare \<^verbatim>\<open>except:\<close>, so it
  also catches the \<^verbatim>\<open>SystemExit\<close> of \<^verbatim>\<open>fail_with_error\<close>. It reads
  \<^verbatim>\<open>sys.exc_info()[0].reason\<close>, an attribute of the exception's class: the classes
  here have none, so the handler itself raises \<^verbatim>\<open>AttributeError\<close>, except for
  \<^verbatim>\<open>UnicodeDecodeError\<close>, whose class has a \<^verbatim>\<open>reason\<close> descriptor, so that
  \<^verbatim>\<open>fail_with_error\<close> is reached. Either way the handler ends in an exception.
\<close>

definition except_handler :: "exn \<Rightarrow> exn" where
  "except_handler e = (if e = UnicodeDecodeError then SystemExit else AttributeError)"

text \<open>\<^verbatim>\<open>self.session['session']\<close>.\<close>

definition session_token :: "state \<Rightarrow> exn + string" where
  "session_token s =
     (case session s of
        None \<Rightarrow> Inl TypeError
      | Some r \<Rightarrow> (case r_session r of None \<Rightarrow> Inl KeyError | Some t \<Rightarrow> Inr t))"

text \<open>The check \<^verbatim>\<open>if result['result'] != 0: self.fail_with_error(... + result['error'])\<close>
  that follows every \<^verbatim>\<open>json.load\<close>: the exception it ends in, if any.\<close>

definition check_result :: "api_result \<Rightarrow> exn option" where
  "check_result r =
     (case r_result r of
        None \<Rightarrow> Some KeyError
      | Some c \<Rightarrow>
          if c \<noteq> 0 then (case r_error r of None \<Rightarrow> Some KeyError | Some _ \<Rightarrow> Some SystemExit)
          else None)"

text \<open>
  \<^verbatim>\<open>login\<close>. The script runs under Python 2 (\<^verbatim>\<open>urllib.urlopen\<close>, \<^verbatim>\<open>iteritems\<close>), where
  the module \<^verbatim>\<open>urllib\<close> has no attribute \<^verbatim>\<open>error\<close>: when any exception leaves the body of
  the \<^verbatim>\<open>try\<close>, matching it against \<^verbatim>\<open>urllib.error.URLError\<close> raises
  \<^verbatim>\<open>AttributeError\<close> in its place.
\<close>

definition login :: "settings \<Rightarrow> extern \<Rightarrow> state \<Rightarrow> unit res \<times> state" where
  "login cfg w s0 =
     (let s = log_event Login s0 in
      case (JELASTIC_USER_ID w, JELASTIC_USER_PASSWORD w) of
        (Some username, Some password) \<Rightarrow>
          (let url = app_url cfg @ ''/users/authentication/rest/signin?'';
               payload = [(''appid'', app_id cfg), (''login'', username), (''password'', password)];
               s1 = log_event (Urlopen url payload) s
           in case urlopen w (trace s) url payload of
                Inl e \<Rightarrow> (Raise AttributeError, s1)
              | Inr r \<Rightarrow>
                  (case check_result r of
                     Some e \<Rightarrow> (Raise AttributeError, s1)
                   | None \<Rightarrow> (Ret (), s1\<lparr>session := Some r\<rparr>)))
      | _ \<Rightarrow> fail_with_error s)"

definition logout :: "settings \<Rightarrow> extern \<Rightarrow> state \<Rightarrow> unit res \<times> state" where
  "logout cfg w s0 =
     (let s = log_event Logout s0 in
      case session_token s of
        Inl e \<Rightarrow> (Raise e, s)
      | Inr tok \<Rightarrow>
          (let url = app_url cfg @ ''/users/authentication/rest/signout?'';
               payload = [(''appid'', app_id cfg), (''session'', tok)];
               s1 = log_event (Urlopen url payload) s
           in case urlopen w (trace s) url payload of
                Inl e \<Rightarrow> (Raise (except_handler e), s1)
              | Inr r \<Rightarrow>
                  (case check_result r of
                     Some e \<Rightarrow> (Raise (except_handler e), s1)
                   | None \<Rightarrow> (Ret (), s1\<lparr>session := Some r\<rparr>))))"

text \<open>The body of the \<^verbatim>\<open>try\<close> of \<^verbatim>\<open>get_environments\<close>: fetch the listing, then group
  every environment.\<close>

definition fetch_and_group :: "settings \<Rightarrow> extern \<Rightarrow> string \<Rightarrow> state \<Rightarrow> unit res \<times> state" where
  "fetch_and_group cfg w tok s =
     (let url = app_url cfg @ ''/environment/environment/rest/getenvs?'';
          payload = [(''appid'', app_id cfg), (''session'', tok)];
          s1 = log_event (Urlopen url payload) s
      in case urlopen w (trace s) url payload of
           Inl e \<Rightarrow> (Raise e, s1)
         | Inr r \<Rightarrow>
             (case check_result r of
                Some e \<Rightarrow> (Raise e, s1)
              | None \<Rightarrow>
                  (case r_infos r of
                     None \<Rightarrow> (Raise KeyError, s1)
                   | Some environments \<Rightarrow> add_environments cfg environments s1)))"

text \<open>
  \<^verbatim>\<open>get_environments\<close>: \<^verbatim>\<open>login\<close> and the payload (which reads
  \<^verbatim>\<open>self.session['session']\<close>) come before the \<^verbatim>\<open>try\<close>. An exception of the body is
  caught by the bare \<^verbatim>\<open>except:\<close>, whose handler raises in turn; the \<^verbatim>\<open>finally\<close> clause
  then calls \<^verbatim>\<open>logout\<close>, and an exception of \<^verbatim>\<open>logout\<close> replaces the pending one.
\<close>

definition get_environments :: "settings \<Rightarrow> extern \<Rightarrow> state \<Rightarrow> unit res \<times> state" where
  "get_environments cfg w s =
     (case login cfg w s of
        (Raise e, s1) \<Rightarrow> (Raise e, s1)
      | (Ret _, s1) \<Rightarrow>
          (case session_token s1 of
             Inl e \<Rightarrow> (Raise e, s1)
           | Inr tok \<Rightarrow>
               (let (body, s2) = fetch_and_group cfg w tok s1;
                    pending = (case body of Raise e \<Rightarrow> Raise (except_handler e) | Ret u \<Rightarrow> Ret u)
                in case logout cfg w s2 of
                     (Raise e, s3) \<Rightarrow> (Raise e, s3)
                   | (Ret _, s3) \<Rightarrow> (pending, s3))))"

section \<open>The cache files\<close>

definition json_format_dict :: "extern \<Rightarrow> pyval \<Rightarrow> bool \<Rightarrow> string" where
  "json_format_dict w data pretty = (if pretty then json_dumps w True data else json_dumps w False data)"

text \<open>\<^verbatim>\<open>write_to_cache\<close>: opening the file for writing replaces it; its modification time
  becomes the current time. The cache directory exists (\<^verbatim>\<open>read_settings\<close> creates it), so
  the \<^verbatim>\<open>open\<close> is taken to succeed.\<close>

definition write_to_cache :: "extern \<Rightarrow> pyval \<Rightarrow> string \<Rightarrow> state \<Rightarrow> state" where
  "write_to_cache w data filename s =
     (let json_data = json_format_dict w data True
      in s\<lparr>files := (files s)(filename \<mapsto> \<lparr>mtime = now w, content = json_data\<rparr>)\<rparr>)"

definition do_api_calls_update_cache :: "settings \<Rightarrow> extern \<Rightarrow> state \<Rightarrow> unit res \<times> state" where
  "do_api_calls_update_cache cfg w s0 =
     (case get_environments cfg w (log_event Refresh s0) of
        (Raise e, s1) \<Rightarrow> (Raise e, s1)
      | (Ret _, s1) \<Rightarrow>
          (let s2 = write_to_cache w (PDict (inventory s1)) (cache_path_cache cfg) s1;
               s3 = write_to_cache w (index s2) (cache_path_index cfg) s2
           in (Ret (), s3)))"

text \<open>\<^verbatim>\<open>open(path, 'r')\<close> raises \<^verbatim>\<open>IOError\<close> when the file does not exist.\<close>

definition get_inventory_from_cache :: "settings \<Rightarrow> state \<Rightarrow> string res \<times> state" where
  "get_inventory_from_cache cfg s =
     (case files s (cache_path_cache cfg) of
        None \<Rightarrow> (Raise IOError, s)
      | Some f \<Rightarrow> (Ret (content f), s))"

definition load_index_from_cache :: "settings \<Rightarrow> extern \<Rightarrow> state \<Rightarrow> unit res \<times> state" where
  "load_index_from_cache cfg w s =
     (case files s (cache_path_index cfg) of
        None \<Rightarrow> (Raise IOError, s)
      | Some f \<Rightarrow>
          (case json_loads w (content f) of
             Inl e \<Rightarrow> (Raise e, s)
           | Inr v \<Rightarrow> (Ret (), s\<lparr>index := v\<rparr>)))"

section \<open>Single-host lookup and the main program\<close>

text \<open>\<^verbatim>\<open>get_host_info_dict_from_node\<close> has the body \<^verbatim>\<open>return\<close>.\<close>

definition get_host_info_dict_from_node :: "pyval \<Rightarrow> pyval" where
  "get_host_info_dict_from_node nd = PNone"

text \<open>The first statement of \<^verbatim>\<open>get_host_info\<close>:
  \<^verbatim>\<open>if len(self.index) == 0: self.load_index_from_cache()\<close>.\<close>

definition load_index_if_empty :: "settings \<Rightarrow> extern \<Rightarrow> state \<Rightarrow> unit res \<times> state" where
  "load_index_if_empty cfg w s =
     (case py_len (index s) of
        Inl e \<Rightarrow> (Raise e, s)
      | Inr n \<Rightarrow> if n = 0 then load_index_from_cache cfg w s else (Ret (), s))"

text \<open>The last three statements of \<^verbatim>\<open>get_host_info\<close>: the index entry is read and
  unpacked, then \<^verbatim>\<open>self.get_node\<close> is looked up. The class defines no \<^verbatim>\<open>get_node\<close>, so
  the lookup raises \<^verbatim>\<open>AttributeError\<close> and the \<^verbatim>\<open>return\<close> after it is never reached.\<close>

definition resolve_host :: "string \<Rightarrow> state \<Rightarrow> string res \<times> state" where
  "resolve_host h s =
     (case py_getitem (index s) h of
        Inl e \<Rightarrow> (Raise e, s)
      | Inr entry \<Rightarrow>
          (case unpack2 entry of
             Inl e \<Rightarrow> (Raise e, s)
           | Inr (environment', node_id) \<Rightarrow> (Raise AttributeError, s)))"

definition get_host_info :: "settings \<Rightarrow> extern \<Rightarrow> string \<Rightarrow> state \<Rightarrow> string res \<times> state" where
  "get_host_info cfg w h s0 =
     (case load_index_if_empty cfg w s0 of
        (Raise e, s) \<Rightarrow> (Raise e, s)
      | (Ret _, s) \<Rightarrow>
          (case py_contains (index s) h of
             Inl e \<Rightarrow> (Raise e, s)
           | Inr True \<Rightarrow> resolve_host h s
           | Inr False \<Rightarrow>
               (case do_api_calls_update_cache cfg w s of
                  (Raise e, s1) \<Rightarrow> (Raise e, s1)
                | (Ret _, s1) \<Rightarrow>
                    (case py_contains (index s1) h of
                       Inl e \<Rightarrow> (Raise e, s1)
                     | Inr False \<Rightarrow> (Ret (json_format_dict w (PDict []) True), s1)
                     | Inr True \<Rightarrow> resolve_host h s1))))"

text \<open>
  The body of \<^verbatim>\<open>__init__\<close> after \<^verbatim>\<open>read_settings\<close> and \<^verbatim>\<open>parse_cli_args\<close>; the result
  is what is printed. \<^verbatim>\<open>if self.args.host\<close> is false for \<^verbatim>\<open>None\<close> and for the empty
  string. The empty inventory has one key at each level, so a dict
  equals it exactly when its association list is the same.
\<close>

definition run :: "settings \<Rightarrow> args \<Rightarrow> extern \<Rightarrow> (string \<Rightarrow> file_entry option) \<Rightarrow> string res \<times> state" where
  "run cfg a w fs =
     (let s0 = init_state fs;
          (r1, s1) =
            (if refresh_cache a then do_api_calls_update_cache cfg w s0
             else (case is_cache_valid cfg w s0 of
                     Raise e \<Rightarrow> (Raise e, s0)
                   | Ret valid \<Rightarrow>
                       if \<not> valid then do_api_calls_update_cache cfg w s0
                       else (Ret (), s0)))
      in case r1 of
           Raise e \<Rightarrow> (Raise e, s1)
         | Ret _ \<Rightarrow>
             (case host a of
                Some (c # cs) \<Rightarrow> get_host_info cfg w (c # cs) s1
              | _ \<Rightarrow>
                  if list' a then
                    (if inventory s1 = empty_inventory then get_inventory_from_cache cfg s1
                     else (Ret (json_format_dict w (PDict (inventory s1)) True), s1))
                  else (Raise UnboundLocalError, s1)))"

section \<open>What the statements below observe\<close>

text \<open>Repeated calls \<^verbatim>\<open>push(d, key, e)\<close> for the elements of a list, in order; the first
  exception ends the sequence.\<close>

fun push_all :: "dict \<Rightarrow> string \<Rightarrow> pyval list \<Rightarrow> exn + dict" where
  "push_all d key [] = Inr d"
| "push_all d key (e # es) = (case push d key e of Inl x \<Rightarrow> Inl x | Inr d' \<Rightarrow> push_all d' key es)"

text \<open>The hosts of a group: a plain list holds them itself, a dict-shaped group holds them
  under \<^verbatim>\<open>hosts\<close>. The hosts of an inventory are those of all its entries; the entry
  \<^verbatim>\<open>_meta\<close> is dict-shaped and gets hosts when a group key happens to be \<^verbatim>\<open>_meta\<close>.\<close>

definition group_members :: "pyval \<Rightarrow> pyval list" where
  "group_members v = (case v of
      PList hs \<Rightarrow> hs
    | PDict g \<Rightarrow> (case map_of g ''hosts'' of Some (PList hs) \<Rightarrow> hs | _ \<Rightarrow> [])
    | _ \<Rightarrow> [])"

definition grouped_hosts :: "dict \<Rightarrow> pyval set" where
  "grouped_hosts d = (\<Union>kv \<in> set d. set (group_members (snd kv)))"

text \<open>The dict \<^verbatim>\<open>inventory["_meta"]["hostvars"]\<close>, its keys, and the keys of the index.\<close>

definition hostvars_of :: "dict \<Rightarrow> dict option" where
  "hostvars_of d = (case map_of d ''_meta'' of
      Some (PDict m) \<Rightarrow> (case map_of m ''hostvars'' of Some (PDict hv) \<Rightarrow> Some hv | _ \<Rightarrow> None)
    | _ \<Rightarrow> None)"

definition hostvars_keys :: "dict \<Rightarrow> string set" where
  "hostvars_keys d = (case hostvars_of d of Some hv \<Rightarrow> fst ` set hv | None \<Rightarrow> {})"

definition index_keys :: "pyval \<Rightarrow> string set" where
  "index_keys i = (case i of PDict d \<Rightarrow> fst ` set d | _ \<Rightarrow> {})"

text \<open>The addresses of a listing that are to be inventoried: those of the nodes with an
  address, in the environments with status 1, in the order of the listing.\<close>

definition inventoried :: "environment list \<Rightarrow> string list" where
  "inventoried envs =
     concat (map (\<lambda>e. if status (env e) = 1 then List.map_filter address (nodes e) else []) envs)"

text \<open>The shapes \<^verbatim>\<open>push\<close> and \<^verbatim>\<open>add_node\<close> work on without raising: every entry of the
  inventory is a list or a dict whose \<^verbatim>\<open>hosts\<close>, if present, is a list; \<^verbatim>\<open>_meta\<close> holds
  the \<^verbatim>\<open>hostvars\<close> dict; the index is a dict.\<close>

definition wf_group :: "pyval \<Rightarrow> bool" where
  "wf_group v = (case v of
      PList hs \<Rightarrow> True
    | PDict g \<Rightarrow> (case map_of g ''hosts'' of None \<Rightarrow> True | Some (PList hs) \<Rightarrow> True | Some _ \<Rightarrow> False)
    | _ \<Rightarrow> False)"

definition wf_inventory :: "dict \<Rightarrow> bool" where
  "wf_inventory d \<longleftrightarrow> list_all (\<lambda>kv. wf_group (snd kv)) d \<and> hostvars_of d \<noteq> None"

definition wf_state :: "state \<Rightarrow> bool" where
  "wf_state s \<longleftrightarrow> wf_inventory (inventory s) \<and> (case index s of PDict i \<Rightarrow> True | _ \<Rightarrow> False)"

text \<open>One successful \<^verbatim>\<open>push\<close> of \<open>e\<close>, from \<open>d\<close> to \<open>d'\<close>.\<close>

definition pushed :: "pyval \<Rightarrow> dict \<Rightarrow> dict \<Rightarrow> bool" where
  "pushed e d d' \<longleftrightarrow> wf_inventory d' \<and> grouped_hosts d' = insert e (grouped_hosts d)
     \<and> hostvars_of d' = hostvars_of d"

text \<open>Two states that differ at most in the inventory and the index.\<close>

definition same_world :: "state \<Rightarrow> state \<Rightarrow> bool" where
  "same_world s s' \<longleftrightarrow> files s' = files s \<and> trace s' = trace s \<and> session s' = session s"

text \<open>Calls of \<^verbatim>\<open>add_environment\<close> and \<^verbatim>\<open>add_node\<close> in any order.\<close>

datatype build_op = AddEnvironment environment | AddNode env_info node

fun run_ops :: "settings \<Rightarrow> build_op list \<Rightarrow> state \<Rightarrow> unit res \<times> state" where
  "run_ops cfg [] s = (Ret (), s)"
| "run_ops cfg (AddEnvironment e # ops) s =
     (case add_environment cfg e s of
        (Raise x, s') \<Rightarrow> (Raise x, s')
      | (Ret _, s') \<Rightarrow> run_ops cfg ops s')"
| "run_ops cfg (AddNode ev nd # ops) s =
     (case add_node cfg ev nd s of
        (Raise x, s') \<Rightarrow> (Raise x, s')
      | (Ret _, s') \<Rightarrow> run_ops cfg ops s')"

text \<open>The inventory is well-shaped and its groups hold exactly the addresses that have
  hostvars.\<close>

definition balanced :: "state \<Rightarrow> bool" where
  "balanced s \<longleftrightarrow> wf_state s \<and> grouped_hosts (inventory s) = PStr ` hostvars_keys (inventory s)"

text \<open>The three requests of a refresh, as they appear in the trace.\<close>

definition signin_call :: "settings \<Rightarrow> extern \<Rightarrow> event list" where
  "signin_call cfg w = (case (JELASTIC_USER_ID w, JELASTIC_USER_PASSWORD w) of
      (Some u, Some p) \<Rightarrow> [Urlopen (app_url cfg @ ''/users/authentication/rest/signin?'')
          [(''appid'', app_id cfg), (''login'', u), (''password'', p)]]
    | _ \<Rightarrow> [])"

definition getenvs_call :: "settings \<Rightarrow> string \<Rightarrow> event" where
  "getenvs_call cfg tok = Urlopen (app_url cfg @ ''/environment/environment/rest/getenvs?'')
     [(''appid'', app_id cfg), (''session'', tok)]"

definition signout_call :: "settings \<Rightarrow> string \<Rightarrow> event" where
  "signout_call cfg tok = Urlopen (app_url cfg @ ''/users/authentication/rest/signout?'')
     [(''appid'', app_id cfg), (''session'', tok)]"

section \<open>The JSON text of a value\<close>

text \<open>
  Modelled from the spec: the script persists and reads back through \<^verbatim>\<open>json.dumps\<close> and
  \<^verbatim>\<open>json.loads\<close> of Python's \<^verbatim>\<open>json\<close> module, whose code is not in the repository. The
  spec describes the persisted form as a deterministic, pretty-printed, key-sorted
  textual form, UTF-8 JSON with two spaces of indentation, and reading as deserializing
  that text. The definitions of this section are that form and that reading: strings
  between double quotes, with the quote and the backslash escaped by a backslash and the
  control characters written \<^verbatim>\<open>\u00XX\<close>.
\<close>

definition quote :: char where "quote = CHR 0x22"

definition bslash :: char where "bslash = CHR 0x5C"

definition hexdigit :: "nat \<Rightarrow> char" where
  "hexdigit n = (if n < 10 then char_of (48 + n) else char_of (87 + n))"

definition hexval :: "char \<Rightarrow> nat" where
  "hexval c = (if of_char c < (58::nat) then of_char c - 48 else of_char c - 87)"

definition escape_char :: "char \<Rightarrow> string" where
  "escape_char c =
     (if c = quote \<or> c = bslash then [bslash, c]
      else if of_char c < (32::nat)
        then [bslash, CHR ''u'', CHR ''0'', CHR ''0'',
              hexdigit (of_char c div 16), hexdigit (of_char c mod 16)]
      else [c])"

definition render_string :: "string \<Rightarrow> string" where
  "render_string s = quote # concat (map escape_char s) @ [quote]"

text \<open>Modelled from the spec: reading a string up to its closing quote, undoing the
  escapes of \<open>escape_char\<close>. Returns the string and the text after the quote.\<close>

fun parse_chars :: "string \<Rightarrow> (string \<times> string) option" where
  "parse_chars [] = None"
| "parse_chars (c # cs) =
     (if c = quote then Some ([], cs)
      else if c = bslash then
        (case cs of
           [] \<Rightarrow> None
         | e # cs' \<Rightarrow>
             if e = quote \<or> e = bslash then map_option (apfst ((#) e)) (parse_chars cs')
             else if e = CHR ''u'' then
               (case cs' of
                  a # b # x # y # cs'' \<Rightarrow>
                    if a = CHR ''0'' \<and> b = CHR ''0''
                    then map_option (apfst ((#) (char_of (16 * hexval x + hexval y))))
                           (parse_chars cs'')
                    else None
                | _ \<Rightarrow> None)
             else None)
      else map_option (apfst ((#) c)) (parse_chars cs))"

text \<open>Modelled from the spec: integers in decimal, with a minus sign when negative, and
  reading them back as the longest run of digits.\<close>

definition is_digit :: "char \<Rightarrow> bool" where
  "is_digit c \<longleftrightarrow> (48::nat) \<le> of_char c \<and> of_char c < (58::nat)"

definition digit :: "nat \<Rightarrow> char" where
  "digit n = char_of (48 + n)"

fun digits :: "nat \<Rightarrow> string" where
  "digits n = (if n < 10 then [digit n] else digits (n div 10) @ [digit (n mod 10)])"

declare digits.simps [simp del]

definition render_int :: "int \<Rightarrow> string" where
  "render_int i = (if i < 0 then CHR ''-'' # digits (nat (- i)) else digits (nat i))"

definition digits_value :: "string \<Rightarrow> nat" where
  "digits_value ds = foldl (\<lambda>a c. 10 * a + (of_char c - 48)) 0 ds"

definition parse_nat :: "string \<Rightarrow> (nat \<times> string) option" where
  "parse_nat s =
     (let ds = takeWhile is_digit s
      in if ds = [] then None else Some (digits_value ds, dropWhile is_digit s))"

definition parse_int :: "string \<Rightarrow> (int \<times> string) option" where
  "parse_int s =
     (case s of
        [] \<Rightarrow> None
      | c # cs \<Rightarrow>
          if c = CHR ''-'' then map_option (apfst (\<lambda>n. - int n)) (parse_nat cs)
          else map_option (apfst int) (parse_nat s))"

definition ends_number :: "string \<Rightarrow> bool" where
  "ends_number rest \<longleftrightarrow> (case rest of [] \<Rightarrow> True | c # cs \<Rightarrow> \<not> is_digit c)"

text \<open>Modelled from the spec: white space is the space and the newline; every item of a
  list or dict starts on a line of its own, indented by two spaces per level.\<close>

definition ws :: "char \<Rightarrow> bool" where
  "ws c \<longleftrightarrow> c = CHR '' '' \<or> c = CHR 0x0A"

definition skip :: "string \<Rightarrow> string" where
  "skip = dropWhile ws"

definition newline_indent :: "nat \<Rightarrow> string" where
  "newline_indent n = CHR 0x0A # replicate (2 * n) (CHR '' '')"

fun join :: "nat \<Rightarrow> string list \<Rightarrow> string" where
  "join n [] = []"
| "join n [x] = newline_indent (Suc n) @ x"
| "join n (x # y # ys) = newline_indent (Suc n) @ x @ '','' @ join n (y # ys)"

text \<open>Modelled from the spec: the pretty-printed text of a value at a nesting level;
  the items of a dict are written in the order given.\<close>

fun render :: "nat \<Rightarrow> pyval \<Rightarrow> string" where
  "render n PNone = ''null''"
| "render n (PInt i) = render_int i"
| "render n (PStr s) = render_string s"
| "render n (PList xs) =
     (if xs = [] then ''[]''
      else ''['' @ join n (map (render (Suc n)) xs) @ newline_indent n @ '']'')"
| "render n (PDict d) =
     (if d = [] then ''{}''
      else ''{'' @ join n (map (\<lambda>kv. render_string (fst kv) @ '': '' @ render (Suc n) (snd kv)) d)
             @ newline_indent n @ ''}'')"

text \<open>Modelled from the spec: the key-sorted form of a value, every dict with its items
  in the order of their keys (strings compare by their characters); and the persisted
  text, which is the pretty-printed text of the key-sorted form.\<close>

fun canon :: "pyval \<Rightarrow> pyval" where
  "canon (PList xs) = PList (map canon xs)"
| "canon (PDict d) = PDict (sort_key fst (map (\<lambda>kv. (fst kv, canon (snd kv))) d))"
| "canon v = v"

definition json_text :: "pyval \<Rightarrow> string" where
  "json_text v = render 0 (canon v)"

text \<open>Every dict of a value has each key once, as every Python dict has.\<close>

fun distinct_keys :: "pyval \<Rightarrow> bool" where
  "distinct_keys (PList xs) = list_all distinct_keys xs"
| "distinct_keys (PDict d) = (distinct (map fst d) \<and> list_all (\<lambda>kv. distinct_keys (snd kv)) d)"
| "distinct_keys v = True"

text \<open>Modelled from the spec: two values are the same snapshot when they are equal as
  Python values: equal atoms, lists equal item by item, and dicts with the same keys
  whose values under each key are the same, at every level of nesting and whatever the
  order in which the items of a dict are held.\<close>

fun same_value :: "pyval \<Rightarrow> pyval \<Rightarrow> bool" where
  "same_value PNone PNone = True"
| "same_value (PInt i) (PInt j) = (i = j)"
| "same_value (PStr a) (PStr b) = (a = b)"
| "same_value (PList xs) (PList ys) = list_all2 same_value xs ys"
| "same_value (PDict d1) (PDict d2) =
     (set (map fst d1) = set (map fst d2)
      \<and> list_all (\<lambda>kv. case map_of d2 (fst kv) of
                          None \<Rightarrow> False
                        | Some v' \<Rightarrow> same_value (snd kv) v') d1)"
| "same_value _ _ = False"

text \<open>Modelled from the spec: deserializing. The items read for a dict are stored one
  by one, a later item replacing an earlier one with the same key. The first argument
  bounds the number of nested calls; \<open>json_parse\<close> gives it the length of the text,
  which always suffices for a persisted text (see \<open>json_round_trip\<close>).\<close>

definition dict_of_items :: "(string \<times> pyval) list \<Rightarrow> (string \<times> pyval) list" where
  "dict_of_items items = foldl (\<lambda>d kv. AList.update (fst kv) (snd kv) d) [] items"

fun parse_value :: "nat \<Rightarrow> string \<Rightarrow> (pyval \<times> string) option"
  and parse_elems :: "nat \<Rightarrow> string \<Rightarrow> (pyval list \<times> string) option"
  and parse_members :: "nat \<Rightarrow> string \<Rightarrow> ((string \<times> pyval) list \<times> string) option" where
  "parse_value 0 s = None"
| "parse_value (Suc n) s =
     (case skip s of
        [] \<Rightarrow> None
      | c # cs \<Rightarrow>
          if c = CHR ''n'' then
            (if take 3 cs = ''ull'' then Some (PNone, drop 3 cs) else None)
          else if c = quote then map_option (apfst PStr) (parse_chars cs)
          else if c = CHR ''['' then
            (case skip cs of
               [] \<Rightarrow> None
             | e # r \<Rightarrow> if e = CHR '']'' then Some (PList [], r)
                        else map_option (apfst PList) (parse_elems n cs))
          else if c = CHR ''{'' then
            (case skip cs of
               [] \<Rightarrow> None
             | e # r \<Rightarrow> if e = CHR ''}'' then Some (PDict [], r)
                        else map_option (apfst (\<lambda>items. PDict (dict_of_items items)))
                               (parse_members n cs))
          else map_option (apfst PInt) (parse_int (c # cs)))"
| "parse_elems 0 s = None"
| "parse_elems (Suc n) s =
     (case parse_value n s of
        None \<Rightarrow> None
      | Some (v, r) \<Rightarrow>
          (case skip r of
             [] \<Rightarrow> None
           | c # r' \<Rightarrow>
               if c = CHR '','' then map_option (apfst ((#) v)) (parse_elems n r')
               else if c = CHR '']'' then Some ([v], r')
               else None))"
| "parse_members 0 s = None"
| "parse_members (Suc n) s =
     (case skip s of
        [] \<Rightarrow> None
      | q # cs \<Rightarrow>
          if q = quote then
            (case parse_chars cs of
               None \<Rightarrow> None
             | Some (k, r) \<Rightarrow>
                 (case skip r of
                    [] \<Rightarrow> None
                  | c # r' \<Rightarrow>
                      if c = CHR '':'' then
                        (case parse_value n r' of
                           None \<Rightarrow> None
                         | Some (v, r'') \<Rightarrow>
                             (case skip r'' of
                                [] \<Rightarrow> None
                              | e # r3 \<Rightarrow>
                                  if e = CHR '','' then
                                    map_option (apfst ((#) (k, v))) (parse_members n r3)
                                  else if e = CHR ''}'' then Some ([(k, v)], r3)
                                  else None))
                      else None))
          else None)"

definition json_parse :: "string \<Rightarrow> pyval option" where
  "json_parse s =
     (case parse_value (Suc (length s)) s of
        None \<Rightarrow> None
      | Some (v, r) \<Rightarrow> if skip r = [] then Some v else None)"

definition json_loads_model :: "string \<Rightarrow> exn + pyval" where
  "json_loads_model t = (case json_parse t of None \<Rightarrow> Inl ValueError | Some v \<Rightarrow> Inr v)"

text \<open>A bound on the nested calls that reading a value back takes.\<close>

fun cost :: "pyval \<Rightarrow> nat" where
  "cost (PList xs) = Suc (sum_list (map (\<lambda>x. Suc (cost x)) xs))"
| "cost (PDict d) = Suc (sum_list (map (\<lambda>kv. Suc (cost (snd kv))) d))"
| "cost v = Suc 0"

definition starts_value :: "string \<Rightarrow> bool" where
  "starts_value s \<longleftrightarrow>
     (case s of [] \<Rightarrow> False | c # cs \<Rightarrow> \<not> ws c \<and> c \<noteq> CHR '']'' \<and> c \<noteq> CHR ''}'')"

subsection \<open>Concrete settings, provider replies and states\<close>

text \<open>One running environment \<^verbatim>\<open>appA\<close> with one node, a stopped environment, and a running
  one whose first node has no address; a provider that signs in with the token \<^verbatim>\<open>tok\<close>,
  answers the listing with a given reply or exception, and signs out; one that is down
  for the listing, one that answers it, and one whose replies carry no token; an inventory snapshot of two hosts
  and the same snapshot with the items of its dicts, nested ones included, in another
  order.\<close>

definition ex_settings :: settings where
  "ex_settings = \<lparr>app_url = ''https://j'', app_id = ''app1'',
     cache_path_cache = ''/c/ansible-jelastic.cache'',
     cache_path_index = ''/c/ansible-jelastic.index'',
     cache_max_age = 10,
     jelastic_ssh_gateway = ''gate.example'', jelastic_ssh_port = ''3022'',
     group_by_environment_id = True, group_by_node_type = True, group_by_node_class = True,
     container_mapping = [(''cp.app'', ''appserver'')]\<rparr>"

definition ex_environment :: environment where
  "ex_environment = \<lparr>env = \<lparr>status = 1, domain = ''appA'', shortdomain = ''a'', uid = ''7''\<rparr>,
     nodes = [\<lparr>id' = ''n1'', address = Some ''10.0.0.1'', nodeType = ''cp.app''\<rparr>]\<rparr>"

definition ex_stopped :: environment where
  "ex_stopped = \<lparr>env = \<lparr>status = 2, domain = ''appB'', shortdomain = ''b'', uid = ''8''\<rparr>,
     nodes = [\<lparr>id' = ''n5'', address = Some ''10.0.0.5'', nodeType = ''cp.app''\<rparr>]\<rparr>"

definition ex_mixed :: environment where
  "ex_mixed = \<lparr>env = \<lparr>status = 1, domain = ''appA'', shortdomain = ''a'', uid = ''7''\<rparr>,
     nodes = [\<lparr>id' = ''n0'', address = None, nodeType = ''bl''\<rparr>,
              \<lparr>id' = ''n1'', address = Some ''10.0.0.1'', nodeType = ''cp.app''\<rparr>]\<rparr>"

definition ex_reply :: "string option \<Rightarrow> environment list option \<Rightarrow> api_result" where
  "ex_reply tok envs = \<lparr>r_result = Some 0, r_error = None, r_session = tok, r_infos = envs\<rparr>"

definition ex_provider :: "(exn + api_result) \<Rightarrow> event list \<Rightarrow> string \<Rightarrow> (string \<times> string) list \<Rightarrow> exn + api_result" where
  "ex_provider listing tr url payload =
     (if url = ''https://j/users/authentication/rest/signin?'' then Inr (ex_reply (Some ''tok'') None)
      else if url = ''https://j/environment/environment/rest/getenvs?'' then listing
      else Inr (ex_reply None None))"

definition ex_extern :: "(exn + api_result) \<Rightarrow> extern" where
  "ex_extern listing = \<lparr>now = 110, float_add = (\<lambda>x n. Inr (Finite (x + of_int n))),
     JELASTIC_USER_ID = Some ''u'', JELASTIC_USER_PASSWORD = Some ''p'',
     urlopen = ex_provider listing,
     json_dumps = (\<lambda>pretty v. if v = PDict [] then ''{}'' else ''...''),
     json_loads = (\<lambda>t. Inl ValueError)\<rparr>"

definition ex_files :: "string \<Rightarrow> file_entry option" where
  "ex_files = [''/c/ansible-jelastic.cache'' \<mapsto> \<lparr>mtime = 100, content = ''{}''\<rparr>,
               ''/c/ansible-jelastic.index'' \<mapsto> \<lparr>mtime = 100, content = ''{}''\<rparr>]"

definition ex_down :: extern where
  "ex_down = ex_extern (Inl IOError)"

definition ex_up :: extern where
  "ex_up = ex_extern (Inr (ex_reply None (Some [ex_environment])))"

definition ex_tokenless :: extern where
  "ex_tokenless = ex_up\<lparr>urlopen := (\<lambda>tr url payload. Inr (ex_reply None None))\<rparr>"

definition ex_state :: state where
  "ex_state = (init_state Map.empty)\<lparr>index := PDict [(''10.0.0.9'', PList [PStr ''old'', PStr ''n9''])]\<rparr>"

definition ex_json :: extern where
  "ex_json = ex_up\<lparr>json_dumps := (\<lambda>pretty. json_text), json_loads := json_loads_model\<rparr>"

definition ex_index :: pyval where
  "ex_index = PDict [(''10.0.0.9'', PList [PStr ''old'', PStr ''n9'']),
                     (''10.0.0.1'', PList [PStr ''appA'', PStr ''n1''])]"

definition ex_snapshot :: pyval where
  "ex_snapshot = PDict
     [(''appserver'', PList [PStr ''10.0.0.9'', PStr ''10.0.0.1'']),
      (''_meta'', PDict [(''hostvars'', PDict
         [(''10.0.0.9'', PDict [(''ansible_ssh_user'', PStr ''n9-7''),
                                (''ansible_ssh_port'', PStr ''3022'')]),
          (''10.0.0.1'', PDict [(''ansible_ssh_user'', PStr ''n1-7''),
                                (''ansible_ssh_port'', PStr ''3022'')])])])]"

definition ex_snapshot_reordered :: pyval where
  "ex_snapshot_reordered = PDict
     [(''_meta'', PDict [(''hostvars'', PDict
         [(''10.0.0.1'', PDict [(''ansible_ssh_port'', PStr ''3022''),
                                (''ansible_ssh_user'', PStr ''n1-7'')]),
          (''10.0.0.9'', PDict [(''ansible_ssh_user'', PStr ''n9-7''),
                                (''ansible_ssh_port'', PStr ''3022'')])])]),
      (''appserver'', PList [PStr ''10.0.0.9'', PStr ''10.0.0.1''])]"

section \<open>Cache validity\<close>

lemmas ex_defs = ex_settings_def ex_environment_def ex_reply_def ex_provider_def
  ex_extern_def ex_files_def

lemmas session_defs = login_def logout_def fetch_and_group_def get_environments_def
  do_api_calls_update_cache_def log_event_def check_result_def session_token_def
  except_handler_def fail_with_error_def write_to_cache_def json_format_dict_def

lemmas grouping_defs = add_environment_def add_node_def andThen_def on_index_def
  on_inventory_def ret_def push_def setdefault_def set_hostvars_def py_setitem_def
  py_getitem_def map_node_class_def startswith_def get_node_hostvars_def

text \<open>
  C1 (as amended). \<^verbatim>\<open>is_cache_valid\<close> returns true if and only if the cache file exists,
  the index file exists, and the sum \<^verbatim>\<open>mod_time + self.cache_max_age\<close>, as the addition of
  Python's floats gives it, is strictly greater than the current time; it raises exactly
  when the cache file exists and that addition raises. Wherever the float sum is the
  exact sum, as for times and a time to live in whole seconds, the result is true while
  \<open>now - mtime < cache_max_age\<close> and false from the boundary
  \<open>now - mtime = cache_max_age\<close> on: the source tests
  \<^verbatim>\<open>(mod_time + self.cache_max_age) > current_time\<close>. And whenever the float sum is the
  exact sum rounded by a monotone rounding that leaves the current time, itself a
  double, as it is, the result is false from that boundary on.
\<close>

theorem is_cache_valid_strict:
  "(is_cache_valid cfg w s = Ret True \<longleftrightarrow>
      (\<exists>f expiry. files s (cache_path_cache cfg) = Some f
          \<and> float_add w (mtime f) (cache_max_age cfg) = Inr expiry
          \<and> float_gt expiry (now w))
      \<and> files s (cache_path_index cfg) \<noteq> None)
   \<and> (is_cache_valid cfg w s = Raise e \<longleftrightarrow>
      (\<exists>f. files s (cache_path_cache cfg) = Some f
          \<and> float_add w (mtime f) (cache_max_age cfg) = Inl e))
   \<and> (\<forall>f. files s (cache_path_cache cfg) = Some f
          \<and> float_add w (mtime f) (cache_max_age cfg)
              = Inr (Finite (mtime f + of_int (cache_max_age cfg)))
        \<longrightarrow> is_cache_valid cfg w s
              = Ret (files s (cache_path_index cfg) \<noteq> None
                     \<and> now w - mtime f < of_int (cache_max_age cfg)))
   \<and> (\<forall>f rnd. files s (cache_path_cache cfg) = Some f
          \<and> mono rnd \<and> rnd (now w) = now w
          \<and> float_add w (mtime f) (cache_max_age cfg)
              = Inr (Finite (rnd (mtime f + of_int (cache_max_age cfg))))
          \<and> of_int (cache_max_age cfg) \<le> now w - mtime f
        \<longrightarrow> is_cache_valid cfg w s = Ret False)"
proof -
  have a: "is_cache_valid cfg w s = Ret True \<longleftrightarrow>
      (\<exists>f expiry. files s (cache_path_cache cfg) = Some f
          \<and> float_add w (mtime f) (cache_max_age cfg) = Inr expiry
          \<and> float_gt expiry (now w))
      \<and> files s (cache_path_index cfg) \<noteq> None"
    unfolding is_cache_valid_def by (auto split: option.splits sum.splits simp: Let_def)
  have b: "is_cache_valid cfg w s = Raise e \<longleftrightarrow>
      (\<exists>f. files s (cache_path_cache cfg) = Some f
          \<and> float_add w (mtime f) (cache_max_age cfg) = Inl e)"
    unfolding is_cache_valid_def by (auto split: option.splits sum.splits simp: Let_def)
  have c: "\<forall>f. files s (cache_path_cache cfg) = Some f
          \<and> float_add w (mtime f) (cache_max_age cfg)
              = Inr (Finite (mtime f + of_int (cache_max_age cfg)))
        \<longrightarrow> is_cache_valid cfg w s
              = Ret (files s (cache_path_index cfg) \<noteq> None
                     \<and> now w - mtime f < of_int (cache_max_age cfg))"
    unfolding is_cache_valid_def by (auto simp: Let_def)
  have d: "\<forall>f rnd. files s (cache_path_cache cfg) = Some f
          \<and> mono rnd \<and> rnd (now w) = now w
          \<and> float_add w (mtime f) (cache_max_age cfg)
              = Inr (Finite (rnd (mtime f + of_int (cache_max_age cfg))))
          \<and> of_int (cache_max_age cfg) \<le> now w - mtime f
        \<longrightarrow> is_cache_valid cfg w s = Ret False"
  proof (intro allI impI)
    fix f and rnd :: "real \<Rightarrow> real"
    assume h: "files s (cache_path_cache cfg) = Some f
          \<and> mono rnd \<and> rnd (now w) = now w
          \<and> float_add w (mtime f) (cache_max_age cfg)
              = Inr (Finite (rnd (mtime f + of_int (cache_max_age cfg))))
          \<and> of_int (cache_max_age cfg) \<le> now w - mtime f"
    then have le: "mtime f + of_int (cache_max_age cfg) \<le> now w" by simp
    have mo: "mono rnd" and fx: "rnd (now w) = now w" using h by blast+
    have "rnd (mtime f + of_int (cache_max_age cfg)) \<le> rnd (now w)"
      using mo le by (rule monoD)
    then have "\<not> rnd (mtime f + of_int (cache_max_age cfg)) > now w"
      unfolding fx by simp
    then show "is_cache_valid cfg w s = Ret False"
      using h unfolding is_cache_valid_def by (simp add: Let_def)
  qed
  from a b c d show ?thesis by blast
qed

text \<open>The theorem with both files modified at time 100 and a time to live of 10, where the
  float sum is 110: the cache is valid at time 109 and stale at time 111.\<close>

theorem is_cache_valid_strict_witness:
  "float_add (ex_extern (Inl IOError)) 100 (cache_max_age ex_settings) = Inr (Finite 110)
   \<and> is_cache_valid ex_settings ((ex_extern (Inl IOError))\<lparr>now := 109\<rparr>) (init_state ex_files)
       = Ret True
   \<and> is_cache_valid ex_settings ((ex_extern (Inl IOError))\<lparr>now := 111\<rparr>) (init_state ex_files)
       = Ret False"
proof -
  let ?f = "\<lparr>mtime = 100, content = ''{}''\<rparr>"
  let ?w = "\<lambda>t. (ex_extern (Inl IOError))\<lparr>now := t\<rparr>"
  have f: "files (init_state ex_files) (cache_path_cache ex_settings) = Some ?f"
    by (simp add: ex_defs init_state_def)
  have i: "files (init_state ex_files) (cache_path_index ex_settings) \<noteq> None"
    by (simp add: ex_defs init_state_def)
  have s: "float_add (?w t) (mtime ?f) (cache_max_age ex_settings)
      = Inr (Finite (mtime ?f + of_int (cache_max_age ex_settings)))" for t
    by (simp add: ex_defs)
  have m: "mono (\<lambda>x::real. x)" by (simp add: mono_def)
  note t = is_cache_valid_strict[of ex_settings _ "init_state ex_files"]
  have "is_cache_valid ex_settings (?w 109) (init_state ex_files)
      = Ret (files (init_state ex_files) (cache_path_index ex_settings) \<noteq> None
             \<and> now (?w 109) - mtime ?f < of_int (cache_max_age ex_settings))"
    using t[of "?w 109"] f s[of 109] by blast
  then have valid: "is_cache_valid ex_settings (?w 109) (init_state ex_files) = Ret True"
    using i by (simp add: ex_settings_def)
  have "files (init_state ex_files) (cache_path_cache ex_settings) = Some ?f
      \<and> mono (\<lambda>x::real. x) \<and> (\<lambda>x::real. x) (now (?w 111)) = now (?w 111)
      \<and> float_add (?w 111) (mtime ?f) (cache_max_age ex_settings)
          = Inr (Finite ((\<lambda>x::real. x) (mtime ?f + of_int (cache_max_age ex_settings))))
      \<and> of_int (cache_max_age ex_settings) \<le> now (?w 111) - mtime ?f"
    using f m s[of 111] by (simp add: ex_settings_def)
  then have stale: "is_cache_valid ex_settings (?w 111) (init_state ex_files) = Ret False"
    using t[of "?w 111"] by blast
  from valid stale show ?thesis by (simp add: ex_defs)
qed

text \<open>
  C1 as stated has the boundary inclusive. With both files present, modified at time 100,
  a time to live of 10 and the clock at 110, the float sum is exactly 110, the age equals
  the time to live and \<^verbatim>\<open>is_cache_valid\<close> returns false.
\<close>

theorem is_cache_valid_boundary_counterexample:
  "files (init_state ex_files) (cache_path_cache ex_settings) \<noteq> None
   \<and> files (init_state ex_files) (cache_path_index ex_settings) \<noteq> None
   \<and> now (ex_extern (Inl IOError)) - 100 = of_int (cache_max_age ex_settings)
   \<and> float_add (ex_extern (Inl IOError)) 100 (cache_max_age ex_settings) = Inr (Finite 110)
   \<and> is_cache_valid ex_settings (ex_extern (Inl IOError)) (init_state ex_files) = Ret False"
  by (simp add: ex_defs is_cache_valid_def init_state_def)

section \<open>Node classes\<close>

lemma startswith_prefix: "startswith s p \<longleftrightarrow> prefix p s"
  unfolding startswith_def
  by (metis append_eq_conv_conj prefix_def append_take_drop_id)

lemma map_filter_first:
  "i < length tab \<Longrightarrow> P (tab ! i) \<Longrightarrow> (\<forall>j<i. \<not> P (tab ! j)) \<Longrightarrow> hd (filter P tab) = tab ! i \<and> filter P tab \<noteq> []"
proof (induction tab arbitrary: i)
  case Nil
  then show ?case by simp
next
  case (Cons a tab)
  show ?case
  proof (cases i)
    case 0
    with Cons.prems show ?thesis by simp
  next
    case (Suc k)
    with Cons.prems have na: "\<not> P a" by auto
    have "k < length tab" "P (tab ! k)" "\<forall>j<k. \<not> P (tab ! j)"
      using Cons.prems Suc by auto
    from Cons.IH[OF this] na Suc show ?thesis by simp
  qed
qed

lemma map_node_class_first:
  assumes "i < length (container_mapping cfg)"
    and "prefix (fst (container_mapping cfg ! i)) nt"
    and "\<forall>j<i. \<not> prefix (fst (container_mapping cfg ! j)) nt"
  shows "map_node_class cfg nt = snd (container_mapping cfg ! i)"
proof -
  let ?P = "\<lambda>kv. startswith nt (fst kv)"
  have "hd (filter ?P (container_mapping cfg)) = container_mapping cfg ! i \<and> filter ?P (container_mapping cfg) \<noteq> []"
    using assms by (intro map_filter_first) (auto simp: startswith_prefix)
  then show ?thesis
    unfolding map_node_class_def by (simp add: Let_def hd_map)
qed

lemma map_node_class_unknown:
  assumes "\<forall>kv \<in> set (container_mapping cfg). \<not> prefix (fst kv) nt"
  shows "map_node_class cfg nt = ''unknown''"
proof -
  have "filter (\<lambda>kv. startswith nt (fst kv)) (container_mapping cfg) = []"
    using assms by (auto simp: startswith_prefix filter_empty_conv)
  then show ?thesis unfolding map_node_class_def by simp
qed

text \<open>
  C3. For every mapping table (its items in iteration order) and every node type,
  \<^verbatim>\<open>map_node_class\<close> returns the value of the first entry whose key is a prefix of the
  node type, and \<^verbatim>\<open>unknown\<close> when no key is a prefix; with the table
  \<^verbatim>\<open>[("cp", "proxy"), ("cp.sql", "db")]\<close> and the node type \<^verbatim>\<open>cp.sql.master\<close> the result
  is \<^verbatim>\<open>proxy\<close>: the first match wins, not the longest.
\<close>

theorem map_node_class_first_match:
  "(\<forall>i < length (container_mapping cfg).
      prefix (fst (container_mapping cfg ! i)) nt
      \<and> (\<forall>j < i. \<not> prefix (fst (container_mapping cfg ! j)) nt)
      \<longrightarrow> map_node_class cfg nt = snd (container_mapping cfg ! i))
   \<and> ((\<forall>kv \<in> set (container_mapping cfg). \<not> prefix (fst kv) nt)
        \<longrightarrow> map_node_class cfg nt = ''unknown'')
   \<and> map_node_class (cfg\<lparr>container_mapping := [(''cp'', ''proxy''), (''cp.sql'', ''db'')]\<rparr>)
        ''cp.sql.master'' = ''proxy''"
proof (intro conjI allI impI)
  fix i
  assume "i < length (container_mapping cfg)"
    and "prefix (fst (container_mapping cfg ! i)) nt
         \<and> (\<forall>j < i. \<not> prefix (fst (container_mapping cfg ! j)) nt)"
  then show "map_node_class cfg nt = snd (container_mapping cfg ! i)"
    by (intro map_node_class_first) auto
next
  assume "\<forall>kv \<in> set (container_mapping cfg). \<not> prefix (fst kv) nt"
  then show "map_node_class cfg nt = ''unknown''" by (rule map_node_class_unknown)
next
  show "map_node_class (cfg\<lparr>container_mapping := [(''cp'', ''proxy''), (''cp.sql'', ''db'')]\<rparr>)
        ''cp.sql.master'' = ''proxy''"
    by (simp add: map_node_class_def startswith_def)
qed

text \<open>The theorem at a table of three entries, where the second is the first match, and at
  a node type that no key is a prefix of.\<close>

theorem map_node_class_first_match_witness:
  "map_node_class (ex_settings\<lparr>container_mapping := [(''bl'', ''balancer''), (''cp'', ''proxy''), (''cp.sql'', ''db'')]\<rparr>)
     ''cp.sql.master'' = ''proxy''
   \<and> map_node_class ex_settings ''nginx'' = ''unknown''"
proof -
  let ?cfg = "ex_settings\<lparr>container_mapping := [(''bl'', ''balancer''), (''cp'', ''proxy''), (''cp.sql'', ''db'')]\<rparr>"
  have a: "(1::nat) < length (container_mapping ?cfg)" by simp
  have b: "prefix (fst (container_mapping ?cfg ! 1)) ''cp.sql.master''
     \<and> (\<forall>j < 1. \<not> prefix (fst (container_mapping ?cfg ! j)) ''cp.sql.master'')" by simp
  have c: "\<forall>kv \<in> set (container_mapping ex_settings). \<not> prefix (fst kv) ''nginx''"
    by (simp add: ex_settings_def)
  from map_node_class_first_match[of ?cfg "''cp.sql.master''"] a b
  have "map_node_class ?cfg ''cp.sql.master'' = snd (container_mapping ?cfg ! 1)" by blast
  moreover from map_node_class_first_match[of ex_settings "''nginx''"] c
  have "map_node_class ex_settings ''nginx'' = ''unknown''" by blast
  ultimately show ?thesis by simp
qed

section \<open>Pushing hosts into groups\<close>

lemma update_append_absent:
  "map_of d k = None \<Longrightarrow> AList.update k v (d @ [(k, x)]) = d @ [(k, v)]"
  by (induction d) (auto split: if_splits)

lemma map_of_append_absent:
  "map_of d k = None \<Longrightarrow> map_of (d @ [(k, v)]) = (map_of d)(k \<mapsto> v)"
  by (induction d) (auto simp: fun_eq_iff split: if_splits)

lemma map_of_append_same:
  "map_of d k = None \<Longrightarrow> map_of (d @ [(k, v)]) k = Some v"
  by (induction d) (auto split: if_splits)

lemma map_of_append_other:
  "k' \<noteq> k \<Longrightarrow> map_of (d @ [(k, v)]) k' = map_of d k'"
  by (induction d) auto

lemma push_absent:
  "map_of d key = None \<Longrightarrow> push d key e = Inr (d @ [(key, PList [e])])"
  by (simp add: push_def setdefault_def update_append_absent)

lemma push_list:
  "map_of d key = Some (PList hs) \<Longrightarrow> push d key e = Inr (AList.update key (PList (hs @ [e])) d)"
  by (simp add: push_def setdefault_def)

lemma push_dict_hosts:
  "map_of d key = Some (PDict g) \<Longrightarrow> map_of g ''hosts'' = Some (PList hs) \<Longrightarrow>
   push d key e = Inr (AList.update key (PDict (AList.update ''hosts'' (PList (hs @ [e])) g)) d)"
  by (simp add: push_def setdefault_def)

lemma push_dict_nohosts:
  "map_of d key = Some (PDict g) \<Longrightarrow> map_of g ''hosts'' = None \<Longrightarrow>
   push d key e = Inr (AList.update key (PDict (g @ [(''hosts'', PList [e])])) d)"
  by (simp add: push_def setdefault_def update_append_absent)

lemma push_all_list:
  "map_of d key = Some (PList hs) \<Longrightarrow>
   \<exists>d'. push_all d key es = Inr d' \<and> map_of d' = (map_of d)(key \<mapsto> PList (hs @ es))"
proof (induction es arbitrary: d hs)
  case Nil
  then have "map_of d = (map_of d)(key \<mapsto> PList hs)" by (auto simp: fun_eq_iff)
  then show ?case by simp
next
  case (Cons e es)
  let ?d1 = "AList.update key (PList (hs @ [e])) d"
  have p: "push d key e = Inr ?d1" using Cons.prems by (rule push_list)
  have u: "map_of ?d1 = (map_of d)(key \<mapsto> PList (hs @ [e]))" by (rule update_conv')
  then have m: "map_of ?d1 key = Some (PList (hs @ [e]))" by simp
  from Cons.IH[OF m] obtain d' where
    r: "push_all ?d1 key es = Inr d'" and
    f: "map_of d' = (map_of ?d1)(key \<mapsto> PList ((hs @ [e]) @ es))"
    by blast
  have "map_of d' = (map_of d)(key \<mapsto> PList (hs @ e # es))"
    unfolding f u by simp
  moreover have "push_all d key (e # es) = Inr d'" using p r by simp
  ultimately show ?case by blast
qed

lemma push_all_absent:
  assumes "map_of d key = None" "es \<noteq> []"
  shows "\<exists>d'. push_all d key es = Inr d' \<and> map_of d' = (map_of d)(key \<mapsto> PList es)"
proof (cases es)
  case Nil
  with assms show ?thesis by simp
next
  case (Cons e es')
  let ?d1 = "d @ [(key, PList [e])]"
  have p: "push d key e = Inr ?d1" using assms(1) by (rule push_absent)
  have u: "map_of ?d1 = (map_of d)(key \<mapsto> PList [e])" using assms(1) by (rule map_of_append_absent)
  then have m: "map_of ?d1 key = Some (PList [e])" by simp
  from push_all_list[OF m, of es'] obtain d' where
    r: "push_all ?d1 key es' = Inr d'" and
    f: "map_of d' = (map_of ?d1)(key \<mapsto> PList ([e] @ es'))"
    by blast
  have "map_of d' = (map_of d)(key \<mapsto> PList es)"
    unfolding f u Cons by simp
  moreover have "push_all d key es = Inr d'" using p r Cons by simp
  ultimately show ?thesis by blast
qed

lemma push_all_dict_hosts:
  "map_of d key = Some (PDict g) \<Longrightarrow> map_of g ''hosts'' = Some (PList hs) \<Longrightarrow>
   \<exists>d' g'. push_all d key es = Inr d' \<and> map_of d' = (map_of d)(key \<mapsto> PDict g')
      \<and> map_of g' = (map_of g)(''hosts'' \<mapsto> PList (hs @ es))"
proof (induction es arbitrary: d g hs)
  case Nil
  then have "map_of d = (map_of d)(key \<mapsto> PDict g)"
    and "map_of g = (map_of g)(''hosts'' \<mapsto> PList hs)" by (auto simp: fun_eq_iff)
  then have "push_all d key [] = Inr d \<and> map_of d = (map_of d)(key \<mapsto> PDict g)
      \<and> map_of g = (map_of g)(''hosts'' \<mapsto> PList (hs @ []))" by simp
  then show ?case by blast
next
  case (Cons e es)
  let ?g1 = "AList.update ''hosts'' (PList (hs @ [e])) g"
  let ?d1 = "AList.update key (PDict ?g1) d"
  have p: "push d key e = Inr ?d1" using Cons.prems by (rule push_dict_hosts)
  have u: "map_of ?d1 = (map_of d)(key \<mapsto> PDict ?g1)" by (rule update_conv')
  have v: "map_of ?g1 = (map_of g)(''hosts'' \<mapsto> PList (hs @ [e]))" by (rule update_conv')
  have m: "map_of ?d1 key = Some (PDict ?g1)" unfolding u by simp
  have h: "map_of ?g1 ''hosts'' = Some (PList (hs @ [e]))" unfolding v by simp
  from Cons.IH[OF m h] obtain d' g' where
    r: "push_all ?d1 key es = Inr d'" and
    f: "map_of d' = (map_of ?d1)(key \<mapsto> PDict g')" and
    k: "map_of g' = (map_of ?g1)(''hosts'' \<mapsto> PList ((hs @ [e]) @ es))"
    by blast
  have "map_of d' = (map_of d)(key \<mapsto> PDict g')" unfolding f u by simp
  moreover have "map_of g' = (map_of g)(''hosts'' \<mapsto> PList (hs @ e # es))" unfolding k v by simp
  moreover have "push_all d key (e # es) = Inr d'" using p r by simp
  ultimately show ?case by blast
qed

lemma push_all_dict_nohosts:
  assumes "map_of d key = Some (PDict g)" "map_of g ''hosts'' = None" "es \<noteq> []"
  shows "\<exists>d' g'. push_all d key es = Inr d' \<and> map_of d' = (map_of d)(key \<mapsto> PDict g')
      \<and> map_of g' = (map_of g)(''hosts'' \<mapsto> PList es)"
proof (cases es)
  case Nil
  with assms show ?thesis by simp
next
  case (Cons e es')
  let ?g1 = "g @ [(''hosts'', PList [e])]"
  let ?d1 = "AList.update key (PDict ?g1) d"
  have p: "push d key e = Inr ?d1" using assms(1,2) by (rule push_dict_nohosts)
  have u: "map_of ?d1 = (map_of d)(key \<mapsto> PDict ?g1)" by (rule update_conv')
  have v: "map_of ?g1 = (map_of g)(''hosts'' \<mapsto> PList [e])" using assms(2) by (rule map_of_append_absent)
  have m: "map_of ?d1 key = Some (PDict ?g1)" unfolding u by simp
  have h: "map_of ?g1 ''hosts'' = Some (PList [e])" unfolding v by simp
  from push_all_dict_hosts[OF m h, of es'] obtain d' g' where
    r: "push_all ?d1 key es' = Inr d'" and
    f: "map_of d' = (map_of ?d1)(key \<mapsto> PDict g')" and
    k: "map_of g' = (map_of ?g1)(''hosts'' \<mapsto> PList ([e] @ es'))"
    by blast
  have "map_of d' = (map_of d)(key \<mapsto> PDict g')" unfolding f u by simp
  moreover have "map_of g' = (map_of g)(''hosts'' \<mapsto> PList es)" unfolding k v Cons by simp
  moreover have "push_all d key es = Inr d'" using p r Cons by simp
  ultimately show ?thesis by blast
qed

text \<open>
  C4. \<^verbatim>\<open>push\<close> creates the group as a plain list when the key is absent, appends to the
  list when the group is a plain list, and appends to the list under \<^verbatim>\<open>hosts\<close> (creating
  it when absent) when the group is a dict. After any sequence of pushes to one key the
  group has the shape it had, a new group is a plain list, the hosts pushed follow the
  ones that were there in the order of the pushes, and the other keys of the structure
  and of a dict-shaped group are unchanged. \<^verbatim>\<open>push({}, "g", "a")\<close> then
  \<^verbatim>\<open>push(_, "g", "b")\<close> gives \<^verbatim>\<open>{"g": ["a", "b"]}\<close>.
\<close>

theorem push_group_shapes:
  "(map_of d key = None \<longrightarrow> push d key e = Inr (d @ [(key, PList [e])]))
   \<and> (\<forall>hs. map_of d key = Some (PList hs) \<longrightarrow>
         push d key e = Inr (AList.update key (PList (hs @ [e])) d))
   \<and> (\<forall>g hs. map_of d key = Some (PDict g) \<and> map_of g ''hosts'' = Some (PList hs) \<longrightarrow>
         push d key e =
           Inr (AList.update key (PDict (AList.update ''hosts'' (PList (hs @ [e])) g)) d))
   \<and> (\<forall>g. map_of d key = Some (PDict g) \<and> map_of g ''hosts'' = None \<longrightarrow>
         push d key e = Inr (AList.update key (PDict (g @ [(''hosts'', PList [e])])) d))
   \<and> (map_of d key = None \<and> es \<noteq> [] \<longrightarrow>
         (\<exists>d'. push_all d key es = Inr d' \<and> map_of d' = (map_of d)(key \<mapsto> PList es)))
   \<and> (\<forall>hs. map_of d key = Some (PList hs) \<longrightarrow>
         (\<exists>d'. push_all d key es = Inr d' \<and> map_of d' = (map_of d)(key \<mapsto> PList (hs @ es))))
   \<and> (\<forall>g hs. map_of d key = Some (PDict g) \<and> map_of g ''hosts'' = Some (PList hs) \<longrightarrow>
         (\<exists>d' g'. push_all d key es = Inr d' \<and> map_of d' = (map_of d)(key \<mapsto> PDict g')
            \<and> map_of g' = (map_of g)(''hosts'' \<mapsto> PList (hs @ es))))
   \<and> (\<forall>g. map_of d key = Some (PDict g) \<and> map_of g ''hosts'' = None \<and> es \<noteq> [] \<longrightarrow>
         (\<exists>d' g'. push_all d key es = Inr d' \<and> map_of d' = (map_of d)(key \<mapsto> PDict g')
            \<and> map_of g' = (map_of g)(''hosts'' \<mapsto> PList es)))
   \<and> push [] ''g'' (PStr ''a'') = Inr [(''g'', PList [PStr ''a''])]
   \<and> push [(''g'', PList [PStr ''a''])] ''g'' (PStr ''b'') = Inr [(''g'', PList [PStr ''a'', PStr ''b''])]"
proof -
  have ex: "push [] ''g'' (PStr ''a'') = Inr [(''g'', PList [PStr ''a''])]
     \<and> push [(''g'', PList [PStr ''a''])] ''g'' (PStr ''b'') = Inr [(''g'', PList [PStr ''a'', PStr ''b''])]"
    by (simp add: push_def setdefault_def)
  show ?thesis
    using ex push_absent[of d key e] push_list[of d key _ e] push_dict_hosts[of d key _ _ e]
      push_dict_nohosts[of d key _ e] push_all_absent[of d key es] push_all_list[of d key _ es]
      push_all_dict_hosts[of d key _ _ es] push_all_dict_nohosts[of d key _ es]
    by blast
qed

text \<open>The theorem at the empty inventory: a new group \<^verbatim>\<open>g\<close>, and the dict-shaped entry
  \<^verbatim>\<open>_meta\<close>, which has no \<^verbatim>\<open>hosts\<close> yet.\<close>

theorem push_group_shapes_witness:
  "push empty_inventory ''g'' (PStr ''a'') = Inr (empty_inventory @ [(''g'', PList [PStr ''a''])])
   \<and> (\<exists>d'. push_all empty_inventory ''g'' [PStr ''a'', PStr ''b''] = Inr d'
         \<and> map_of d' = (map_of empty_inventory)(''g'' \<mapsto> PList [PStr ''a'', PStr ''b'']))
   \<and> (\<exists>d' g'. push_all empty_inventory ''_meta'' [PStr ''a'', PStr ''b''] = Inr d'
         \<and> map_of d' = (map_of empty_inventory)(''_meta'' \<mapsto> PDict g')
         \<and> map_of g' = [''hostvars'' \<mapsto> PDict [], ''hosts'' \<mapsto> PList [PStr ''a'', PStr ''b'']])"
proof -
  have a: "map_of empty_inventory ''g'' = None" by (simp add: empty_inventory_def)
  have b: "map_of empty_inventory ''_meta'' = Some (PDict [(''hostvars'', PDict [])])
     \<and> map_of [(''hostvars'', PDict [])] ''hosts'' = None" by (simp add: empty_inventory_def)
  have ne: "[PStr ''a'', PStr ''b''] \<noteq> []" by simp
  note t1 = push_group_shapes[of empty_inventory "''g''" "PStr ''a''" "[PStr ''a'', PStr ''b'']"]
  note t2 = push_group_shapes[of empty_inventory "''_meta''" "PStr ''a''" "[PStr ''a'', PStr ''b'']"]
  have 1: "push empty_inventory ''g'' (PStr ''a'') = Inr (empty_inventory @ [(''g'', PList [PStr ''a''])])"
    using t1 a by blast
  have 2: "\<exists>d'. push_all empty_inventory ''g'' [PStr ''a'', PStr ''b''] = Inr d'
         \<and> map_of d' = (map_of empty_inventory)(''g'' \<mapsto> PList [PStr ''a'', PStr ''b''])"
    using t1 a ne by blast
  have "\<exists>d' g'. push_all empty_inventory ''_meta'' [PStr ''a'', PStr ''b''] = Inr d'
         \<and> map_of d' = (map_of empty_inventory)(''_meta'' \<mapsto> PDict g')
         \<and> map_of g' = (map_of [(''hostvars'', PDict [])])(''hosts'' \<mapsto> PList [PStr ''a'', PStr ''b''])"
    using t2 b ne by blast
  then have 3: "\<exists>d' g'. push_all empty_inventory ''_meta'' [PStr ''a'', PStr ''b''] = Inr d'
         \<and> map_of d' = (map_of empty_inventory)(''_meta'' \<mapsto> PDict g')
         \<and> map_of g' = [''hostvars'' \<mapsto> PDict [], ''hosts'' \<mapsto> PList [PStr ''a'', PStr ''b'']]"
    by simp
  from 1 2 3 show ?thesis by blast
qed

section \<open>Building the inventory and the index\<close>

lemma grouped_hosts_append:
  "grouped_hosts (d @ [(k, v)]) = grouped_hosts d \<union> set (group_members v)"
  by (auto simp: grouped_hosts_def)

lemma grouped_hosts_update:
  "map_of d k = Some v \<Longrightarrow> set (group_members v) \<subseteq> set (group_members v') \<Longrightarrow>
   grouped_hosts (AList.update k v' d) = grouped_hosts d \<union> set (group_members v')"
proof (induction d)
  case Nil
  then show ?case by simp
next
  case (Cons p d)
  show ?case
  proof (cases "fst p = k")
    case True
    with Cons.prems have "snd p = v" by (cases p) auto
    with True Cons.prems(2) show ?thesis by (auto simp: grouped_hosts_def)
  next
    case False
    with Cons.prems have "map_of d k = Some v" by (cases p) auto
    from Cons.IH[OF this Cons.prems(2)] False show ?thesis
      by (auto simp: grouped_hosts_def)
  qed
qed

lemma list_all_update:
  "list_all P d \<Longrightarrow> P (k, v) \<Longrightarrow> list_all P (AList.update k v d)"
  by (induction d) auto

lemma map_of_wf_group:
  "list_all (\<lambda>kv. wf_group (snd kv)) d \<Longrightarrow> map_of d k = Some v \<Longrightarrow> wf_group v"
  by (induction d) (auto split: if_splits)

lemma hostvars_of_Some:
  "hostvars_of d = Some hv \<longleftrightarrow>
     (\<exists>m. map_of d ''_meta'' = Some (PDict m) \<and> map_of m ''hostvars'' = Some (PDict hv))"
proof (cases "map_of d ''_meta''")
  case None
  then show ?thesis by (simp add: hostvars_of_def)
next
  case (Some v)
  show ?thesis
  proof (cases v)
    case (PDict m)
    show ?thesis
    proof (cases "map_of m ''hostvars''")
      case None
      with Some PDict show ?thesis by (simp add: hostvars_of_def)
    next
      case (Some u)
      with \<open>map_of d ''_meta'' = Some v\<close> PDict show ?thesis
        by (cases u) (simp_all add: hostvars_of_def)
    qed
  qed (use Some in \<open>simp_all add: hostvars_of_def\<close>)
qed

lemma wf_inventory_meta:
  "wf_inventory d \<Longrightarrow> \<exists>m hv. map_of d ''_meta'' = Some (PDict m) \<and> map_of m ''hostvars'' = Some (PDict hv)"
  using hostvars_of_Some by (auto simp: wf_inventory_def)

lemma hostvars_of_same:
  "map_of d' ''_meta'' = Some (PDict m') \<Longrightarrow> map_of d ''_meta'' = Some (PDict m) \<Longrightarrow>
   map_of m' ''hostvars'' = map_of m ''hostvars'' \<Longrightarrow> hostvars_of d' = hostvars_of d"
  by (simp add: hostvars_of_def)

lemma push_ok:
  assumes wf: "wf_inventory d"
  shows "\<exists>d'. push d k e = Inr d' \<and> pushed e d d'"
proof -
  from wf_inventory_meta[OF wf] obtain m hv where
    meta: "map_of d ''_meta'' = Some (PDict m)" and hvs: "map_of m ''hostvars'' = Some (PDict hv)"
    by blast
  have all: "list_all (\<lambda>kv. wf_group (snd kv)) d" using wf by (simp add: wf_inventory_def)
  have hne: "hostvars_of d \<noteq> None" using wf by (simp add: wf_inventory_def)
  show ?thesis
  proof (cases "map_of d k")
    case None
    then have ne: "''_meta'' \<noteq> k" using meta by auto
    let ?d' = "d @ [(k, PList [e])]"
    have "push d k e = Inr ?d'" using None by (rule push_absent)
    moreover have "map_of ?d' ''_meta'' = Some (PDict m)"
      using meta map_of_append_other[OF ne] by simp
    then have hv: "hostvars_of ?d' = hostvars_of d"
      using meta by (rule hostvars_of_same) simp
    moreover have "wf_inventory ?d'"
      using all hne hv by (simp add: wf_inventory_def wf_group_def)
    moreover have "grouped_hosts ?d' = insert e (grouped_hosts d)"
      by (simp add: grouped_hosts_append group_members_def)
    ultimately show ?thesis by (auto simp: pushed_def)
  next
    case (Some v)
    have wv: "wf_group v" using all Some by (rule map_of_wf_group)
    have sub: "set (group_members v) \<subseteq> grouped_hosts d"
      using map_of_SomeD[OF Some] by (force simp: grouped_hosts_def)
    show ?thesis
    proof (cases v)
      case (PList hs)
      then have ne: "k \<noteq> ''_meta''" using meta Some by auto
      let ?d' = "AList.update k (PList (hs @ [e])) d"
      have "push d k e = Inr ?d'" using Some PList by (simp add: push_list)
      moreover have "map_of ?d' ''_meta'' = Some (PDict m)"
        using meta ne by (simp add: update_conv')
      then have hv: "hostvars_of ?d' = hostvars_of d"
        using meta by (rule hostvars_of_same) simp
      moreover have "wf_inventory ?d'"
        using all hne hv by (simp add: wf_inventory_def wf_group_def list_all_update)
      moreover have "grouped_hosts ?d' = insert e (grouped_hosts d)"
      proof -
        have "grouped_hosts ?d' = grouped_hosts d \<union> set (group_members (PList (hs @ [e])))"
          using Some PList by (intro grouped_hosts_update[where v = v]) (auto simp: group_members_def)
        then show ?thesis using sub PList by (auto simp: group_members_def)
      qed
      ultimately show ?thesis by (auto simp: pushed_def)
    next
      case (PDict g)
      define hs where "hs = group_members v"
      define g' where "g' = (case map_of g ''hosts'' of None \<Rightarrow> g @ [(''hosts'', PList [e])]
                              | Some _ \<Rightarrow> AList.update ''hosts'' (PList (hs @ [e])) g)"
      let ?d' = "AList.update k (PDict g') d"
      have p: "push d k e = Inr ?d' \<and> map_of g' ''hosts'' = Some (PList (hs @ [e]))"
      proof (cases "map_of g ''hosts''")
        case None
        then have "hs = []" "g' = g @ [(''hosts'', PList [e])]"
          using PDict by (simp_all add: hs_def g'_def group_members_def)
        then show ?thesis
          using push_dict_nohosts[OF Some[unfolded PDict] None] map_of_append_same[OF None] by simp
      next
        case (Some u)
        then obtain us where u: "u = PList us" using wv PDict by (cases u) (auto simp: wf_group_def)
        then have "hs = us" "g' = AList.update ''hosts'' (PList (us @ [e])) g"
          using PDict Some by (simp_all add: hs_def g'_def group_members_def)
        then show ?thesis
          using push_dict_hosts[OF \<open>map_of d k = Some v\<close>[unfolded PDict] Some[unfolded u]]
          by (simp add: update_conv')
      qed
      then have gh: "map_of g' ''hosts'' = Some (PList (hs @ [e]))" by simp
      have go: "map_of g' ''hostvars'' = map_of g ''hostvars''"
        by (auto simp: g'_def update_conv' map_add_def split: option.splits)
      have wg': "wf_group (PDict g')" using gh by (simp add: wf_group_def)
      have mem: "group_members (PDict g') = hs @ [e]" using gh by (simp add: group_members_def)
      have hv: "hostvars_of ?d' = hostvars_of d"
      proof (cases "k = ''_meta''")
        case True
        then have gm: "g = m" using meta Some PDict by simp
        have "map_of ?d' ''_meta'' = Some (PDict g')" using True by (simp add: update_conv')
        then show ?thesis using meta go[unfolded gm] by (rule hostvars_of_same)
      next
        case False
        then have "map_of ?d' ''_meta'' = Some (PDict m)" using meta by (simp add: update_conv')
        then show ?thesis using meta by (rule hostvars_of_same) simp
      qed
      moreover have "wf_inventory ?d'"
        using all hne hv wg' by (simp add: wf_inventory_def list_all_update)
      moreover have "grouped_hosts ?d' = insert e (grouped_hosts d)"
      proof -
        have "grouped_hosts ?d' = grouped_hosts d \<union> set (group_members (PDict g'))"
          using Some by (intro grouped_hosts_update[where v = v]) (auto simp: mem hs_def)
        then show ?thesis using sub by (auto simp: mem hs_def)
      qed
      ultimately show ?thesis using p by (auto simp: pushed_def)
    qed (use wv in \<open>auto simp: wf_group_def\<close>)
  qed
qed

lemma set_hostvars_ok:
  assumes wf: "wf_inventory d"
  shows "\<exists>d'. set_hostvars d a v = Inr d' \<and> wf_inventory d' \<and> grouped_hosts d' = grouped_hosts d
     \<and> hostvars_keys d' = insert a (hostvars_keys d)"
proof -
  from wf_inventory_meta[OF wf] obtain m hv where
    meta: "map_of d ''_meta'' = Some (PDict m)" and hvs: "map_of m ''hostvars'' = Some (PDict hv)"
    by blast
  have all: "list_all (\<lambda>kv. wf_group (snd kv)) d" using wf by (simp add: wf_inventory_def)
  let ?hv' = "AList.update a v hv"
  let ?m' = "AList.update ''hostvars'' (PDict ?hv') m"
  let ?d' = "AList.update ''_meta'' (PDict ?m') d"
  have s: "set_hostvars d a v = Inr ?d'"
    using meta hvs by (simp add: set_hostvars_def py_getitem_def py_setitem_def)
  have wm: "wf_group (PDict m)" using all meta by (rule map_of_wf_group)
  have hosts: "map_of ?m' ''hosts'' = map_of m ''hosts''" by (simp add: update_conv')
  then have wm': "wf_group (PDict ?m')" using wm by (simp add: wf_group_def)
  have mem: "group_members (PDict ?m') = group_members (PDict m)"
    using hosts by (simp add: group_members_def)
  have h0: "hostvars_of d = Some hv" using meta hvs by (simp add: hostvars_of_Some)
  have h1: "hostvars_of ?d' = Some ?hv'" by (simp add: hostvars_of_Some update_conv')
  have "wf_inventory ?d'"
    using all wm' h1 by (simp add: wf_inventory_def list_all_update)
  moreover have "hostvars_keys ?d' = insert a (hostvars_keys d)"
    using h0 h1 by (simp add: hostvars_keys_def dom_update)
  moreover have "grouped_hosts ?d' = grouped_hosts d"
  proof -
    have "grouped_hosts ?d' = grouped_hosts d \<union> set (group_members (PDict ?m'))"
      using meta by (intro grouped_hosts_update[where v = "PDict m"]) (auto simp: mem)
    moreover have "set (group_members (PDict m)) \<subseteq> grouped_hosts d"
      using map_of_SomeD[OF meta] by (force simp: grouped_hosts_def)
    ultimately show ?thesis by (auto simp: mem)
  qed
  ultimately show ?thesis using s by blast
qed

lemma opt_push_ok:
  assumes "wf_inventory d" "e \<in> grouped_hosts d"
  shows "\<exists>d'. (if b then push d k e else Inr d) = Inr d' \<and> pushed e d d'"
proof (cases b)
  case True
  then show ?thesis using push_ok[OF assms(1), of k e] by simp
next
  case False
  then show ?thesis using assms by (auto simp: pushed_def)
qed

lemma add_node_ok:
  assumes wf: "wf_state s" and addr: "address nd = Some a"
  shows "\<exists>s'. add_node cfg ev nd s = (Ret (), s') \<and> wf_state s' \<and> same_world s s'
     \<and> index_keys (index s') = insert a (index_keys (index s))
     \<and> grouped_hosts (inventory s') = insert (PStr a) (grouped_hosts (inventory s))
     \<and> hostvars_keys (inventory s') = insert a (hostvars_keys (inventory s))"
proof -
  from wf obtain i where i: "index s = PDict i"
    by (cases "index s") (auto simp: wf_state_def)
  have wd: "wf_inventory (inventory s)" using wf by (simp add: wf_state_def)
  let ?e = "PStr a"
  let ?entry = "PList [PStr (domain ev), PStr (id' nd)]"
  let ?i' = "PDict (AList.update a ?entry i)"
  let ?s1 = "s\<lparr>index := ?i'\<rparr>"
  have st0: "py_setitem (index s) a ?entry = Inr ?i'" using i by (simp add: py_setitem_def)
  from push_ok[OF wd] obtain d1 where
    p1: "push (inventory s) (domain ev) ?e = Inr d1" and q1: "pushed ?e (inventory s) d1" by blast
  have w1: "wf_inventory d1" using q1 by (simp add: pushed_def)
  from push_ok[OF w1] obtain d2 where
    p2: "push d1 (shortdomain ev) ?e = Inr d2" and q2: "pushed ?e d1 d2" by blast
  have w2: "wf_inventory d2" and m2: "?e \<in> grouped_hosts d2" using q2 by (simp_all add: pushed_def)
  from opt_push_ok[OF w2 m2] obtain d3 where
    p3: "(if group_by_node_type cfg then push d2 (nodeType nd) ?e else Inr d2) = Inr d3"
    and q3: "pushed ?e d2 d3" by blast
  have w3: "wf_inventory d3" and m3: "?e \<in> grouped_hosts d3" using q3 by (simp_all add: pushed_def)
  from opt_push_ok[OF w3 m3] obtain d4 where
    p4: "(if group_by_node_class cfg then push d3 (map_node_class cfg (nodeType nd)) ?e else Inr d3) = Inr d4"
    and q4: "pushed ?e d3 d4" by blast
  have w4: "wf_inventory d4" using q4 by (simp add: pushed_def)
  from set_hostvars_ok[OF w4] obtain d5 where
    p5: "set_hostvars d4 a (get_node_hostvars cfg ev nd) = Inr d5" and w5: "wf_inventory d5"
    and g5: "grouped_hosts d5 = grouped_hosts d4" and h5: "hostvars_keys d5 = insert a (hostvars_keys d4)"
    by blast
  have run: "add_node cfg ev nd s = (Ret (), ?s1\<lparr>inventory := d5\<rparr>)"
    using p3 p4
    by (cases "group_by_node_type cfg"; cases "group_by_node_class cfg")
       (simp_all add: add_node_def addr andThen_def on_index_def on_inventory_def ret_def
          st0 p1 p2 p5)
  have "grouped_hosts d5 = insert ?e (grouped_hosts (inventory s))"
    using q1 q2 q3 q4 g5 by (auto simp: pushed_def)
  moreover have "hostvars_keys d4 = hostvars_keys (inventory s)"
    using q1 q2 q3 q4 by (simp add: pushed_def hostvars_keys_def)
  moreover have "index_keys ?i' = insert a (index_keys (index s))"
    using i by (simp add: index_keys_def dom_update)
  ultimately show ?thesis
    using run w5 h5 by (simp add: wf_state_def same_world_def)
qed

lemma add_node_skip: "address nd = None \<Longrightarrow> add_node cfg ev nd s = (Ret (), s)"
  by (simp add: add_node_def)

lemma add_nodes_ok:
  "wf_state s \<Longrightarrow>
   \<exists>s'. add_nodes cfg ev nds s = (Ret (), s') \<and> wf_state s' \<and> same_world s s'
     \<and> index_keys (index s') = index_keys (index s) \<union> set (List.map_filter address nds)
     \<and> grouped_hosts (inventory s') = grouped_hosts (inventory s) \<union> PStr ` set (List.map_filter address nds)
     \<and> hostvars_keys (inventory s') = hostvars_keys (inventory s) \<union> set (List.map_filter address nds)"
proof (induction nds arbitrary: s)
  case Nil
  then show ?case by (simp add: map_filter_simps same_world_def)
next
  case (Cons nd nds)
  show ?case
  proof (cases "address nd")
    case None
    from Cons.IH[OF Cons.prems] None show ?thesis
      by (simp add: add_node_skip map_filter_simps)
  next
    case (Some a)
    from add_node_ok[OF Cons.prems Some, of cfg ev] obtain s1 where
      r1: "add_node cfg ev nd s = (Ret (), s1)" and w1: "wf_state s1" and sw: "same_world s s1"
      and k1: "index_keys (index s1) = insert a (index_keys (index s))"
      and g1: "grouped_hosts (inventory s1) = insert (PStr a) (grouped_hosts (inventory s))"
      and h1: "hostvars_keys (inventory s1) = insert a (hostvars_keys (inventory s))"
      by blast
    from Cons.IH[OF w1] obtain s' where
      "add_nodes cfg ev nds s1 = (Ret (), s')" "wf_state s'" "same_world s1 s'"
      "index_keys (index s') = index_keys (index s1) \<union> set (List.map_filter address nds)"
      "grouped_hosts (inventory s') = grouped_hosts (inventory s1) \<union> PStr ` set (List.map_filter address nds)"
      "hostvars_keys (inventory s') = hostvars_keys (inventory s1) \<union> set (List.map_filter address nds)"
      by blast
    then show ?thesis
      using r1 sw k1 g1 h1 Some by (auto simp: map_filter_simps same_world_def)
  qed
qed

lemma add_environment_ok:
  assumes "wf_state s"
  shows "\<exists>s'. add_environment cfg e s = (Ret (), s') \<and> wf_state s' \<and> same_world s s'
     \<and> index_keys (index s') = index_keys (index s) \<union> set (inventoried [e])
     \<and> grouped_hosts (inventory s') = grouped_hosts (inventory s) \<union> PStr ` set (inventoried [e])
     \<and> hostvars_keys (inventory s') = hostvars_keys (inventory s) \<union> set (inventoried [e])"
proof (cases "status (env e) = 1")
  case True
  then show ?thesis
    using add_nodes_ok[OF assms, of cfg "env e" "nodes e"]
    by (simp add: add_environment_def inventoried_def)
next
  case False
  then show ?thesis using assms by (simp add: add_environment_def inventoried_def same_world_def)
qed

lemma inventoried_Cons: "inventoried (e # es) = inventoried [e] @ inventoried es"
  by (simp add: inventoried_def)

lemma add_environments_ok:
  "wf_state s \<Longrightarrow>
   \<exists>s'. add_environments cfg envs s = (Ret (), s') \<and> wf_state s' \<and> same_world s s'
     \<and> index_keys (index s') = index_keys (index s) \<union> set (inventoried envs)
     \<and> grouped_hosts (inventory s') = grouped_hosts (inventory s) \<union> PStr ` set (inventoried envs)
     \<and> hostvars_keys (inventory s') = hostvars_keys (inventory s) \<union> set (inventoried envs)"
proof (induction envs arbitrary: s)
  case Nil
  then show ?case by (simp add: inventoried_def same_world_def)
next
  case (Cons e envs)
  from add_environment_ok[OF Cons.prems, of cfg e] obtain s1 where
    r1: "add_environment cfg e s = (Ret (), s1)" and w1: "wf_state s1" and sw: "same_world s s1"
    and k1: "index_keys (index s1) = index_keys (index s) \<union> set (inventoried [e])"
    and g1: "grouped_hosts (inventory s1) = grouped_hosts (inventory s) \<union> PStr ` set (inventoried [e])"
    and h1: "hostvars_keys (inventory s1) = hostvars_keys (inventory s) \<union> set (inventoried [e])"
    by blast
  from Cons.IH[OF w1] obtain s' where
    "add_environments cfg envs s1 = (Ret (), s')" "wf_state s'" "same_world s1 s'"
    "index_keys (index s') = index_keys (index s1) \<union> set (inventoried envs)"
    "grouped_hosts (inventory s') = grouped_hosts (inventory s1) \<union> PStr ` set (inventoried envs)"
    "hostvars_keys (inventory s') = hostvars_keys (inventory s1) \<union> set (inventoried envs)"
    by blast
  then show ?case
    using r1 sw k1 g1 h1 inventoried_Cons[of e envs]
    by (auto simp: same_world_def)
qed

lemma wf_init: "wf_state (init_state fs)"
  by (simp add: wf_state_def init_state_def empty_inventory_def wf_inventory_def wf_group_def
      hostvars_of_def)

lemma init_sets:
  "index_keys (index (init_state fs)) = {}"
  "grouped_hosts (inventory (init_state fs)) = {}"
  "hostvars_keys (inventory (init_state fs)) = {}"
  by (simp_all add: init_state_def empty_inventory_def index_keys_def grouped_hosts_def
      group_members_def hostvars_keys_def hostvars_of_def)

lemma inventoried_iff:
  "a \<in> set (inventoried envs) \<longleftrightarrow>
     (\<exists>e \<in> set envs. status (env e) = 1 \<and> (\<exists>n \<in> set (nodes e). address n = Some a))"
proof
  assume "a \<in> set (inventoried envs)"
  then obtain e where e: "e \<in> set envs" "status (env e) = 1"
      "a \<in> set (List.map_filter address (nodes e))"
    by (auto simp: inventoried_def split: if_splits)
  then obtain n where "n \<in> set (nodes e)" "address n = Some a"
    by (auto simp: map_filter_def)
  with e show "\<exists>e \<in> set envs. status (env e) = 1 \<and> (\<exists>n \<in> set (nodes e). address n = Some a)"
    by blast
next
  assume "\<exists>e \<in> set envs. status (env e) = 1 \<and> (\<exists>n \<in> set (nodes e). address n = Some a)"
  then obtain e n where e: "e \<in> set envs" "status (env e) = 1" "n \<in> set (nodes e)"
      "address n = Some a"
    by blast
  then have "a \<in> set (List.map_filter address (nodes e))"
    by (force simp: map_filter_def)
  with e show "a \<in> set (inventoried envs)" by (auto simp: inventoried_def)
qed

lemma run_ops_balanced:
  "balanced s \<Longrightarrow> \<exists>s'. run_ops cfg ops s = (Ret (), s') \<and> balanced s'"
proof (induction ops arbitrary: s)
  case Nil
  then show ?case by simp
next
  case (Cons op ops)
  have "\<exists>s1. (case op of AddEnvironment e \<Rightarrow> add_environment cfg e s | AddNode ev nd \<Rightarrow> add_node cfg ev nd s) = (Ret (), s1)
      \<and> balanced s1"
  proof (cases op)
    case (AddEnvironment e)
    then show ?thesis
      using add_environment_ok[of s cfg e] Cons.prems by (auto simp: balanced_def)
  next
    case (AddNode ev nd)
    show ?thesis
    proof (cases "address nd")
      case None
      then show ?thesis using AddNode Cons.prems by (simp add: add_node_skip)
    next
      case (Some a)
      then show ?thesis
        using add_node_ok[of s nd a cfg ev] AddNode Cons.prems by (auto simp: balanced_def)
    qed
  qed
  then obtain s1 where
    r: "(case op of AddEnvironment e \<Rightarrow> add_environment cfg e s | AddNode ev nd \<Rightarrow> add_node cfg ev nd s) = (Ret (), s1)"
    and b: "balanced s1" by blast
  from Cons.IH[OF b] obtain s' where "run_ops cfg ops s1 = (Ret (), s')" "balanced s'" by blast
  then show ?case using r by (cases op) auto
qed

text \<open>
  C2. For every listing fed to the build loop of a fresh object, the loop ends without an
  exception, and the keys of the index, the keys of the hostvars and the hosts of the
  groups are exactly the addresses of the nodes that have one and belong to an
  environment with status 1. An environment with another status changes nothing, a node
  without address changes nothing, and neither stops the loop.
\<close>

theorem build_records_running_addressed:
  "(\<exists>s'. add_environments cfg envs (init_state fs) = (Ret (), s')
       \<and> index_keys (index s') = set (inventoried envs)
       \<and> hostvars_keys (inventory s') = set (inventoried envs)
       \<and> grouped_hosts (inventory s') = PStr ` set (inventoried envs))
   \<and> (a \<in> set (inventoried envs) \<longleftrightarrow>
        (\<exists>e \<in> set envs. status (env e) = 1 \<and> (\<exists>n \<in> set (nodes e). address n = Some a)))
   \<and> (status (env e) \<noteq> 1 \<longrightarrow> add_environment cfg e s = (Ret (), s))
   \<and> (address nd = None \<longrightarrow> add_node cfg ev nd s = (Ret (), s))"
proof -
  have "\<exists>s'. add_environments cfg envs (init_state fs) = (Ret (), s')
       \<and> index_keys (index s') = set (inventoried envs)
       \<and> hostvars_keys (inventory s') = set (inventoried envs)
       \<and> grouped_hosts (inventory s') = PStr ` set (inventoried envs)"
    using add_environments_ok[OF wf_init, of cfg envs fs] by (auto simp: init_sets)
  moreover have "status (env e) \<noteq> 1 \<longrightarrow> add_environment cfg e s = (Ret (), s)"
    by (simp add: add_environment_def)
  moreover have "address nd = None \<longrightarrow> add_node cfg ev nd s = (Ret (), s)"
    by (simp add: add_node_skip)
  ultimately show ?thesis using inventoried_iff[of a envs] by blast
qed

text \<open>The theorem at a listing of a stopped environment with an addressed node, followed by
  a running one whose first node has no address and whose second has one.\<close>

theorem build_records_running_addressed_witness:
  "(\<exists>s'. add_environments ex_settings [ex_stopped, ex_mixed] (init_state Map.empty) = (Ret (), s')
       \<and> index_keys (index s') = {''10.0.0.1''}
       \<and> hostvars_keys (inventory s') = {''10.0.0.1''}
       \<and> grouped_hosts (inventory s') = {PStr ''10.0.0.1''})
   \<and> add_environment ex_settings ex_stopped (init_state Map.empty) = (Ret (), init_state Map.empty)
   \<and> add_node ex_settings (env ex_mixed) (hd (nodes ex_mixed)) (init_state Map.empty)
        = (Ret (), init_state Map.empty)"
proof -
  have i: "inventoried [ex_stopped, ex_mixed] = [''10.0.0.1'']"
    by (simp add: inventoried_def ex_stopped_def ex_mixed_def map_filter_simps)
  have a: "status (env ex_stopped) \<noteq> 1" by (simp add: ex_stopped_def)
  have b: "address (hd (nodes ex_mixed)) = None" by (simp add: ex_mixed_def)
  note t = build_records_running_addressed[of ex_settings "[ex_stopped, ex_mixed]" Map.empty
      "''10.0.0.1''" ex_stopped "init_state Map.empty" "hd (nodes ex_mixed)" "env ex_mixed"]
  have ii: "set (inventoried [ex_stopped, ex_mixed]) = {''10.0.0.1''}" by (simp add: i)
  have iii: "PStr ` {''10.0.0.1''} = {PStr ''10.0.0.1''}" by simp
  show ?thesis using t a b unfolding ii iii by blast
qed

text \<open>
  C5. After any sequence of \<^verbatim>\<open>add_environment\<close> and \<^verbatim>\<open>add_node\<close> calls on a fresh object
  (no call raises), the addresses that appear in the groups of the inventory are exactly
  the keys of its hostvars.
\<close>

theorem groups_match_hostvars:
  "\<exists>s'. run_ops cfg ops (init_state fs) = (Ret (), s')
     \<and> grouped_hosts (inventory s') = PStr ` hostvars_keys (inventory s')"
proof -
  have "balanced (init_state fs)" by (simp add: balanced_def wf_init init_sets)
  from run_ops_balanced[OF this, of cfg ops] show ?thesis by (auto simp: balanced_def)
qed

text \<open>The scenario of one running environment \<^verbatim>\<open>appA\<close> (short domain \<^verbatim>\<open>a\<close>) with the node
  \<^verbatim>\<open>n1\<close> at \<^verbatim>\<open>10.0.0.1\<close> of type \<^verbatim>\<open>cp.app\<close>, both toggles on and the mapping
  \<^verbatim>\<open>cp.app\<close> to \<^verbatim>\<open>appserver\<close>: the four groups hold the address, its hostvars carry the
  configured gateway and port, and the index resolves it.\<close>

theorem end_to_end_scenario:
  "add_environments ex_settings [ex_environment] (init_state fs) =
     (Ret (),
      (init_state fs)\<lparr>
        inventory :=
          [(''_meta'', PDict [(''hostvars'', PDict [(''10.0.0.1'',
              PDict [(''ansible_ssh_user'', PStr ''n1-7''),
                     (''ansible_ssh_host'', PStr ''gate.example''),
                     (''ansible_ssh_port'', PStr ''3022'')])])]),
           (''appA'', PList [PStr ''10.0.0.1'']),
           (''a'', PList [PStr ''10.0.0.1'']),
           (''cp.app'', PList [PStr ''10.0.0.1'']),
           (''appserver'', PList [PStr ''10.0.0.1''])],
        index := PDict [(''10.0.0.1'', PList [PStr ''appA'', PStr ''n1''])]\<rparr>)"
  by (simp add: ex_defs grouping_defs init_state_def empty_inventory_def)

section \<open>The provider session during a refresh\<close>

lemma same_world_refl: "same_world s s" by (simp add: same_world_def)

lemma same_world_trans: "same_world s s1 \<Longrightarrow> same_world s1 s2 \<Longrightarrow> same_world s s2"
  by (simp add: same_world_def)

lemma same_world_on_inventory: "same_world s (snd (on_inventory f s))"
  by (simp add: on_inventory_def same_world_def split: sum.splits)

lemma same_world_on_index: "same_world s (snd (on_index f s))"
  by (simp add: on_index_def same_world_def split: sum.splits)

lemma same_world_ret: "same_world s (snd (ret x s))"
  by (simp add: ret_def same_world_def)

lemma same_world_andThen:
  assumes "\<And>s. same_world s (snd (m s))" and "\<And>x s. same_world s (snd (k x s))"
  shows "same_world s (snd (andThen m k s))"
proof (cases "m s")
  case (Pair r s1)
  have a: "same_world s s1" using assms(1)[of s] Pair by simp
  show ?thesis
  proof (cases r)
    case (Ret x)
    then show ?thesis
      using Pair a assms(2)[of s1 x] by (auto simp: andThen_def intro: same_world_trans)
  next
    case (Raise e)
    then show ?thesis using Pair a by (simp add: andThen_def)
  qed
qed

lemma same_world_add_node: "same_world s (snd (add_node cfg ev nd s))"
proof (cases "address nd")
  case None
  then show ?thesis by (simp add: add_node_def same_world_refl)
next
  case (Some a)
  show ?thesis
    unfolding add_node_def Some option.case
    by (intro same_world_andThen same_world_on_index same_world_on_inventory)
       (auto intro: same_world_on_inventory same_world_ret)
qed

lemma same_world_add_nodes: "same_world s (snd (add_nodes cfg ev nds s))"
proof (induction nds arbitrary: s)
  case Nil
  then show ?case by (simp add: same_world_refl)
next
  case (Cons nd nds)
  obtain r s1 where p: "add_node cfg ev nd s = (r, s1)" by (cases "add_node cfg ev nd s")
  then have a: "same_world s s1" using same_world_add_node[of s cfg ev nd] by simp
  show ?case
  proof (cases r)
    case (Ret x)
    then show ?thesis using p a Cons.IH[of s1] by (auto intro: same_world_trans)
  next
    case (Raise e)
    then show ?thesis using p a by simp
  qed
qed

lemma same_world_add_environment: "same_world s (snd (add_environment cfg e s))"
  by (simp add: add_environment_def same_world_refl same_world_add_nodes)

lemma same_world_add_environments: "same_world s (snd (add_environments cfg envs s))"
proof (induction envs arbitrary: s)
  case Nil
  then show ?case by (simp add: same_world_refl)
next
  case (Cons e envs)
  obtain r s1 where p: "add_environment cfg e s = (r, s1)" by (cases "add_environment cfg e s")
  then have a: "same_world s s1" using same_world_add_environment[of s cfg e] by simp
  show ?case
  proof (cases r)
    case (Ret x)
    then show ?thesis using p a Cons.IH[of s1] by (auto intro: same_world_trans)
  next
    case (Raise x)
    then show ?thesis using p a by simp
  qed
qed

lemma fetch_and_group_world:
  "trace (snd (fetch_and_group cfg w tok s)) = trace s @ [getenvs_call cfg tok]
   \<and> session (snd (fetch_and_group cfg w tok s)) = session s
   \<and> files (snd (fetch_and_group cfg w tok s)) = files s"
proof -
  let ?s1 = "log_event (getenvs_call cfg tok) s"
  have a: "\<And>envs. same_world ?s1 (snd (add_environments cfg envs ?s1))"
    by (rule same_world_add_environments)
  show ?thesis
    using a
    by (auto simp: fetch_and_group_def getenvs_call_def Let_def log_event_def same_world_def
        split: sum.splits option.splits)
qed

lemma logout_trace:
  "session_token s = Inr tok \<Longrightarrow>
   trace (snd (logout cfg w s)) = trace s @ [Logout, signout_call cfg tok]
   \<and> files (snd (logout cfg w s)) = files s"
  by (auto simp: logout_def signout_call_def Let_def log_event_def session_token_def
      split: sum.splits option.splits)

lemma session_token_cong: "session s' = session s \<Longrightarrow> session_token s' = session_token s"
  by (simp add: session_token_def)

lemma get_environments_after_login:
  assumes l: "login cfg w s = (Ret (), s1)" and t: "session_token s1 = Inr tok"
  shows "trace (snd (get_environments cfg w s)) = trace s1 @ [getenvs_call cfg tok, Logout, signout_call cfg tok]"
    and "files (snd (get_environments cfg w s)) = files s1"
    and "fst (fetch_and_group cfg w tok s1) = Raise e \<Longrightarrow> \<exists>e'. fst (get_environments cfg w s) = Raise e'"
proof -
  obtain body s2 where f: "fetch_and_group cfg w tok s1 = (body, s2)"
    by (cases "fetch_and_group cfg w tok s1")
  from fetch_and_group_world[of cfg w tok s1] f
  have tr2: "trace s2 = trace s1 @ [getenvs_call cfg tok]" and se2: "session s2 = session s1"
    and fi2: "files s2 = files s1"
    by simp_all
  have t2: "session_token s2 = Inr tok" using t session_token_cong[OF se2] by simp
  obtain lr s3 where lo: "logout cfg w s2 = (lr, s3)" by (cases "logout cfg w s2")
  from logout_trace[OF t2, of cfg w] lo
  have tr3: "trace s3 = trace s2 @ [Logout, signout_call cfg tok]" and fi3: "files s3 = files s2"
    by simp_all
  have ge: "snd (get_environments cfg w s) = s3"
    using l t f lo by (cases lr) (simp_all add: get_environments_def)
  show "trace (snd (get_environments cfg w s)) = trace s1 @ [getenvs_call cfg tok, Logout, signout_call cfg tok]"
    using ge tr2 tr3 by simp
  show "files (snd (get_environments cfg w s)) = files s1" using ge fi2 fi3 by simp
  show "\<exists>e'. fst (get_environments cfg w s) = Raise e'" if "fst (fetch_and_group cfg w tok s1) = Raise e"
    using that l t f lo by (cases lr) (simp_all add: get_environments_def)
qed

lemma login_world:
  "trace (snd (login cfg w s)) = trace s @ Login # signin_call cfg w
   \<and> files (snd (login cfg w s)) = files s
   \<and> inventory (snd (login cfg w s)) = inventory s \<and> index (snd (login cfg w s)) = index s"
  by (auto simp: login_def signin_call_def Let_def log_event_def fail_with_error_def
      split: sum.splits option.splits)

lemma get_environments_trace:
  "\<exists>tr. trace (snd (get_environments cfg w s)) = trace s @ tr \<and> Refresh \<notin> set tr"
proof -
  obtain r s1 where l: "login cfg w s = (r, s1)" by (cases "login cfg w s")
  from login_world[of cfg w s] l have tr1: "trace s1 = trace s @ Login # signin_call cfg w" by simp
  have nr: "Refresh \<notin> set (signin_call cfg w)"
    by (auto simp: signin_call_def split: option.splits)
  show ?thesis
  proof (cases r)
    case (Raise e)
    then show ?thesis using l tr1 nr by (simp add: get_environments_def)
  next
    case (Ret u)
    show ?thesis
    proof (cases "session_token s1")
      case (Inl e)
      then show ?thesis using l Ret tr1 nr by (simp add: get_environments_def)
    next
      case (Inr tok)
      from get_environments_after_login(1)[OF l[unfolded Ret, simplified] Inr]
      show ?thesis using tr1 nr by (simp add: getenvs_call_def signout_call_def)
    qed
  qed
qed

lemma write_to_cache_world:
  "trace (write_to_cache w d f s) = trace s \<and> index (write_to_cache w d f s) = index s
   \<and> inventory (write_to_cache w d f s) = inventory s"
  by (simp add: write_to_cache_def Let_def)

lemma do_api_trace:
  "\<exists>tr. trace (snd (do_api_calls_update_cache cfg w s)) = trace s @ Refresh # tr \<and> Refresh \<notin> set tr"
proof -
  let ?s0 = "log_event Refresh s"
  obtain r s1 where g: "get_environments cfg w ?s0 = (r, s1)" by (cases "get_environments cfg w ?s0")
  from get_environments_trace[of cfg w ?s0] g obtain tr where
    "trace s1 = trace ?s0 @ tr" "Refresh \<notin> set tr" by auto
  then have "trace s1 = trace s @ Refresh # tr \<and> Refresh \<notin> set tr" by (simp add: log_event_def)
  then show ?thesis
    using g by (cases r) (auto simp: do_api_calls_update_cache_def Let_def write_to_cache_world)
qed

lemma do_api_trace_eq:
  "trace (snd (do_api_calls_update_cache cfg w s0)) =
   trace (snd (get_environments cfg w (log_event Refresh s0)))"
  by (simp add: do_api_calls_update_cache_def Let_def write_to_cache_world
      split: prod.splits res.splits)

lemma load_index_if_empty_trace: "trace (snd (load_index_if_empty cfg w s)) = trace s"
  by (simp add: load_index_if_empty_def load_index_from_cache_def split: sum.splits option.splits)

text \<open>
  C9 (as amended). When \<^verbatim>\<open>login\<close> has returned and the reply it stored carries a session
  token, \<^verbatim>\<open>get_environments\<close> requests the listing, then calls \<^verbatim>\<open>logout\<close>, which sends the
  sign-out request with that token, whatever the request and the grouping did; an
  exception of theirs still ends \<^verbatim>\<open>get_environments\<close> in an exception. The trace of a
  refresh is the trace of its \<^verbatim>\<open>get_environments\<close>.
\<close>

theorem logout_after_login:
  "login cfg w s = (Ret (), s1) \<Longrightarrow> session_token s1 = Inr tok \<Longrightarrow>
     trace (snd (get_environments cfg w s)) =
       trace s1 @ [getenvs_call cfg tok, Logout, signout_call cfg tok]
   \<and> (\<forall>e. fst (fetch_and_group cfg w tok s1) = Raise e \<longrightarrow>
         (\<exists>e'. fst (get_environments cfg w s) = Raise e'))
   \<and> trace (snd (do_api_calls_update_cache cfg w s0)) =
       trace (snd (get_environments cfg w (log_event Refresh s0)))"
  using get_environments_after_login(1)[of cfg w s s1 tok]
    get_environments_after_login(3)[of cfg w s s1 tok] do_api_trace_eq[of cfg w s0]
  by blast

text \<open>The theorem at a provider that signs in and then fails on the listing.\<close>

theorem logout_after_login_witness:
  "trace (snd (get_environments ex_settings ex_down (init_state Map.empty))) =
     [Login,
      Urlopen ''https://j/users/authentication/rest/signin?''
        [(''appid'', ''app1''), (''login'', ''u''), (''password'', ''p'')],
      Urlopen ''https://j/environment/environment/rest/getenvs?''
        [(''appid'', ''app1''), (''session'', ''tok'')],
      Logout,
      Urlopen ''https://j/users/authentication/rest/signout?''
        [(''appid'', ''app1''), (''session'', ''tok'')]]
   \<and> fst (fetch_and_group ex_settings ex_down ''tok''
            (snd (login ex_settings ex_down (init_state Map.empty)))) = Raise IOError
   \<and> (\<exists>e'. fst (get_environments ex_settings ex_down (init_state Map.empty)) = Raise e')"
proof -
  let ?s = "init_state Map.empty"
  let ?s1 = "snd (login ex_settings ex_down ?s)"
  have "fst (login ex_settings ex_down ?s) = Ret ()"
    by (simp add: ex_down_def ex_defs session_defs init_state_def)
  then have h1: "login ex_settings ex_down ?s = (Ret (), ?s1)"
    by (metis prod.collapse)
  have h2: "session_token ?s1 = Inr ''tok''"
    by (simp add: ex_down_def ex_defs session_defs init_state_def)
  have tr1: "trace ?s1 = [Login, Urlopen ''https://j/users/authentication/rest/signin?''
        [(''appid'', ''app1''), (''login'', ''u''), (''password'', ''p'')]]"
    by (simp add: ex_down_def ex_defs session_defs init_state_def)
  have f: "fst (fetch_and_group ex_settings ex_down ''tok'' ?s1) = Raise IOError"
    by (simp add: ex_down_def ex_defs session_defs init_state_def)
  note t = logout_after_login[OF h1 h2, of ?s]
  from t f have "\<exists>e'. fst (get_environments ex_settings ex_down ?s) = Raise e'" by blast
  moreover from t have "trace (snd (get_environments ex_settings ex_down ?s)) =
       trace ?s1 @ [getenvs_call ex_settings ''tok'', Logout, signout_call ex_settings ''tok'']"
    by blast
  ultimately show ?thesis
    using f unfolding tr1 by (simp add: getenvs_call_def signout_call_def ex_settings_def)
qed

text \<open>
  C9 as stated allows no exit after \<^verbatim>\<open>login\<close> that skips \<^verbatim>\<open>logout\<close>. The payload of the
  listing request reads \<^verbatim>\<open>self.session['session']\<close> before the \<^verbatim>\<open>try\<close>: when the reply
  to the sign-in has result 0 and no session token, \<^verbatim>\<open>login\<close> returns,
  \<^verbatim>\<open>get_environments\<close> raises \<^verbatim>\<open>KeyError\<close>, and \<^verbatim>\<open>logout\<close> is never called.
\<close>

theorem logout_skipped_without_token_counterexample:
  "login ex_settings ex_tokenless (init_state Map.empty) =
     (Ret (), snd (login ex_settings ex_tokenless (init_state Map.empty)))
   \<and> fst (get_environments ex_settings ex_tokenless (init_state Map.empty)) = Raise KeyError
   \<and> Logout \<notin> set (trace (snd (get_environments ex_settings ex_tokenless (init_state Map.empty))))
   \<and> trace (snd (do_api_calls_update_cache ex_settings ex_tokenless (init_state Map.empty))) =
       [Refresh, Login,
        Urlopen ''https://j/users/authentication/rest/signin?''
          [(''appid'', ''app1''), (''login'', ''u''), (''password'', ''p'')]]"
  by (simp add: ex_tokenless_def ex_up_def ex_defs session_defs init_state_def)

section \<open>What a refresh leaves in the cache files\<close>

lemma get_environments_files: "files (snd (get_environments cfg w s)) = files s"
proof -
  obtain r s1 where l: "login cfg w s = (r, s1)" by (cases "login cfg w s")
  from login_world[of cfg w s] l have f1: "files s1 = files s" by simp
  show ?thesis
  proof (cases r)
    case (Raise e)
    then show ?thesis using l f1 by (simp add: get_environments_def)
  next
    case (Ret u)
    show ?thesis
    proof (cases "session_token s1")
      case (Inl e)
      then show ?thesis using l Ret f1 by (simp add: get_environments_def)
    next
      case (Inr tok)
      from get_environments_after_login(2)[OF l[unfolded Ret, simplified] Inr]
      show ?thesis using f1 by simp
    qed
  qed
qed

text \<open>A refresh that ends in an exception leaves every file as it was; one that returns
  has replaced exactly the cache file and the index file, by the JSON text of the
  inventory and of the index, stamped with the current time.\<close>

theorem refresh_writes_both_or_nothing:
  "(case do_api_calls_update_cache cfg w s of
      (Raise e, s') \<Rightarrow> files s' = files s
    | (Ret u, s') \<Rightarrow>
        files s' = (files s)
          (cache_path_cache cfg \<mapsto> \<lparr>mtime = now w, content = json_dumps w True (PDict (inventory s'))\<rparr>,
           cache_path_index cfg \<mapsto> \<lparr>mtime = now w, content = json_dumps w True (index s')\<rparr>))"
proof -
  let ?s0 = "log_event Refresh s"
  obtain r s1 where g: "get_environments cfg w ?s0 = (r, s1)"
    by (cases "get_environments cfg w ?s0")
  from get_environments_files[of cfg w ?s0] g have "files s1 = files s"
    by (simp add: log_event_def)
  then show ?thesis
    using g by (cases r) (simp_all add: do_api_calls_update_cache_def write_to_cache_def
        json_format_dict_def Let_def)
qed

text \<open>What is read back from a file that \<^verbatim>\<open>write_to_cache\<close> wrote: the index becomes
  \<^verbatim>\<open>json.loads\<close> of \<^verbatim>\<open>json.dumps(data, sort_keys=True, indent=2)\<close>, and the inventory is
  returned as that text, not decoded.\<close>

theorem persist_then_load:
  "load_index_from_cache cfg w (write_to_cache w v (cache_path_index cfg) s) =
     (case json_loads w (json_dumps w True v) of
        Inl e \<Rightarrow> (Raise e, write_to_cache w v (cache_path_index cfg) s)
      | Inr v' \<Rightarrow> (Ret (), (write_to_cache w v (cache_path_index cfg) s)\<lparr>index := v'\<rparr>))
   \<and> get_inventory_from_cache cfg (write_to_cache w v (cache_path_cache cfg) s) =
       (Ret (json_dumps w True v), write_to_cache w v (cache_path_cache cfg) s)"
  by (simp add: load_index_from_cache_def get_inventory_from_cache_def write_to_cache_def
      json_format_dict_def split: sum.splits)

section \<open>Reading back the persisted text\<close>

lemma hexval_hexdigit: "n < 16 \<Longrightarrow> hexval (hexdigit n) = n"
  by (auto simp: hexval_def hexdigit_def)

lemma decode_escape:
  assumes "of_char c < (32::nat)"
  shows "char_of (16 * hexval (hexdigit (of_char c div 16)) + hexval (hexdigit (of_char c mod 16))) = c"
proof -
  have "of_char c div 16 < (16::nat)" using assms by simp
  moreover have "of_char c mod 16 < (16::nat)" by simp
  ultimately have "16 * hexval (hexdigit (of_char c div 16)) + hexval (hexdigit (of_char c mod 16))
      = (of_char c :: nat)"
    by (simp add: hexval_hexdigit)
  then show ?thesis by simp
qed

lemma parse_chars_escaped:
  "parse_chars (concat (map escape_char s) @ quote # rest) = Some (s, rest)"
proof (induction s)
  case Nil
  then show ?case by simp
next
  case (Cons c s)
  consider "c = quote \<or> c = bslash" | "c \<noteq> quote" "c \<noteq> bslash" "of_char c < (32::nat)"
    | "c \<noteq> quote" "c \<noteq> bslash" "\<not> of_char c < (32::nat)" by blast
  then show ?case
  proof cases
    case 1
    then show ?thesis using Cons.IH by (auto simp: escape_char_def quote_def bslash_def)
  next
    case 2
    then show ?thesis using Cons.IH decode_escape[OF 2(3)]
      by (simp add: escape_char_def quote_def bslash_def)
  next
    case 3
    then show ?thesis using Cons.IH by (simp add: escape_char_def)
  qed
qed

lemma is_digit_digit: "n < 10 \<Longrightarrow> is_digit (digit n)"
  by (simp add: is_digit_def digit_def)

lemma digit_value: "n < 10 \<Longrightarrow> of_char (digit n) - 48 = n"
  by (simp add: digit_def)

lemma digits_all: "\<forall>c \<in> set (digits n). is_digit c"
proof (induction n rule: digits.induct)
  case (1 n)
  then show ?case by (subst digits.simps) (auto simp: is_digit_digit)
qed

lemma digits_nonempty: "digits n \<noteq> []"
  by (subst digits.simps) simp

lemma digits_value_digits: "digits_value (digits n) = n"
proof (induction n rule: digits.induct)
  case (1 n)
  show ?case
  proof (cases "n < 10")
    case True
    then show ?thesis by (subst digits.simps) (simp add: digits_value_def digit_value)
  next
    case False
    then have "digits_value (digits (n div 10)) = n div 10" using 1 by simp
    then show ?thesis
      using False by (subst digits.simps) (simp add: digits_value_def digit_value)
  qed
qed

lemma parse_nat_digits:
  assumes "ends_number rest"
  shows "parse_nat (digits n @ rest) = Some (n, rest)"
proof -
  have a: "takeWhile is_digit (digits n @ rest) = digits n"
    using assms digits_all[of n]
    by (cases rest) (auto simp: ends_number_def takeWhile_append2 takeWhile_tail)
  have b: "dropWhile is_digit (digits n @ rest) = rest"
    using assms digits_all[of n]
    by (cases rest) (auto simp: ends_number_def dropWhile_append2 dropWhile_append3)
  show ?thesis
    unfolding parse_nat_def a b by (simp add: digits_nonempty digits_value_digits)
qed

lemma hd_digits_not_minus: "hd (digits n) \<noteq> CHR ''-''"
proof -
  have "hd (digits n) \<in> set (digits n)" using digits_nonempty by simp
  then have "is_digit (hd (digits n))" using digits_all by blast
  then show ?thesis by (auto simp: is_digit_def)
qed

lemma parse_int_render:
  assumes "ends_number rest"
  shows "parse_int (render_int i @ rest) = Some (i, rest)"
proof (cases "i < 0")
  case True
  then show ?thesis
    using parse_nat_digits[OF assms, of "nat (- i)"]
    by (simp add: parse_int_def render_int_def)
next
  case False
  obtain c cs where d: "digits (nat i) = c # cs" using digits_nonempty by (cases "digits (nat i)") auto
  then have "c \<noteq> CHR ''-''" using hd_digits_not_minus[of "nat i"] by simp
  then show ?thesis
    using False d parse_nat_digits[OF assms, of "nat i"]
    by (simp add: parse_int_def render_int_def)
qed

lemma skip_newline_indent: "skip (newline_indent n @ s) = skip s"
proof -
  have "\<forall>c \<in> set (newline_indent n). ws c" by (auto simp: newline_indent_def ws_def)
  then show ?thesis unfolding skip_def by (simp add: dropWhile_append2)
qed

lemma skip_space: "skip (CHR '' '' # s) = skip s"
  by (simp add: skip_def ws_def)

lemma skip_stop: "\<not> ws c \<Longrightarrow> skip (c # s) = c # s"
  by (simp add: skip_def)

lemma parse_value_newline_indent: "parse_value f (newline_indent n @ s) = parse_value f s"
  by (cases f) (simp_all add: skip_newline_indent)

lemma parse_value_space: "parse_value f (CHR '' '' # s) = parse_value f s"
  by (cases f) (simp_all add: skip_space)

lemma parse_members_newline_indent: "parse_members f (newline_indent n @ s) = parse_members f s"
  by (cases f) (simp_all add: skip_newline_indent)

lemma starts_value_digits: "starts_value (digits n @ r)"
proof -
  obtain c cs where d: "digits n = c # cs" using digits_nonempty by (cases "digits n") auto
  then have "is_digit c" using digits_all[of n] by simp
  then show ?thesis using d by (auto simp: starts_value_def is_digit_def ws_def)
qed

lemma starts_value_render: "starts_value (render n v @ r)"
proof (cases v)
  case (PInt i)
  then show ?thesis
    using starts_value_digits by (auto simp: render_int_def) (simp add: starts_value_def ws_def)
qed (auto simp: starts_value_def ws_def render_string_def quote_def)

lemma skip_starts_value: "starts_value s \<Longrightarrow> skip s = s"
  by (cases s) (auto simp: starts_value_def skip_def)

lemma ends_number_newline_indent: "ends_number (newline_indent n @ s)"
  by (simp add: ends_number_def newline_indent_def is_digit_def)

lemma ends_number_comma: "ends_number (CHR '','' # s)"
  by (simp add: ends_number_def is_digit_def)

lemma parse_elems_join:
  assumes "xs \<noteq> []"
    and "\<And>x f rest. x \<in> set xs \<Longrightarrow> cost x \<le> f \<Longrightarrow> ends_number rest \<Longrightarrow>
           parse_value f (render m x @ rest) = Some (x, rest)"
    and "sum_list (map (\<lambda>x. Suc (cost x)) xs) \<le> f"
  shows "parse_elems f (join n (map (render m) xs) @ newline_indent k @ CHR '']'' # rest)
         = Some (xs, rest)"
  using assms
proof (induction xs arbitrary: f rule: list_nonempty_induct)
  case (single x)
  then obtain f' where f: "f = Suc f'" and c: "cost x \<le> f'" by (cases f) auto
  let ?R = "newline_indent k @ CHR '']'' # rest"
  have "parse_value f' (render m x @ ?R) = Some (x, ?R)"
    using single.prems(1)[of x f' ?R] c by (simp add: ends_number_newline_indent)
  moreover have "skip ?R = CHR '']'' # rest"
    by (simp add: skip_newline_indent skip_stop ws_def)
  ultimately show ?case
    by (simp add: f parse_value_newline_indent)
next
  case (cons x xs)
  then obtain f' where f: "f = Suc f'" and c: "cost x \<le> f'"
    and c': "sum_list (map (\<lambda>x. Suc (cost x)) xs) \<le> f'" by (cases f) auto
  obtain y ys where xs: "xs = y # ys" using cons.hyps by (cases xs) auto
  let ?T = "join n (map (render m) xs) @ newline_indent k @ CHR '']'' # rest"
  let ?R = "CHR '','' # ?T"
  have "parse_value f' (render m x @ ?R) = Some (x, ?R)"
    using cons.prems(1)[of x f' ?R] c by (simp add: ends_number_comma)
  moreover have "skip ?R = ?R" by (simp add: skip_stop ws_def)
  moreover have "parse_elems f' ?T = Some (xs, rest)"
    using cons.IH[of f'] cons.prems(1) c' by simp
  ultimately show ?case
    by (simp add: f xs parse_value_newline_indent)
qed

lemma parse_members_join:
  assumes "d \<noteq> []"
    and "\<And>kv f rest. kv \<in> set d \<Longrightarrow> cost (snd kv) \<le> f \<Longrightarrow> ends_number rest \<Longrightarrow>
           parse_value f (render m (snd kv) @ rest) = Some (snd kv, rest)"
    and "sum_list (map (\<lambda>kv. Suc (cost (snd kv))) d) \<le> f"
  shows "parse_members f
           (join n (map (\<lambda>kv. render_string (fst kv) @ '': '' @ render m (snd kv)) d)
              @ newline_indent k @ CHR ''}'' # rest)
         = Some (d, rest)"
  using assms
proof (induction d arbitrary: f rule: list_nonempty_induct)
  case (single kv)
  then obtain f' where f: "f = Suc f'" and c: "cost (snd kv) \<le> f'" by (cases f) auto
  let ?R = "newline_indent k @ CHR ''}'' # rest"
  have v: "parse_value f' (render m (snd kv) @ ?R) = Some (snd kv, ?R)"
    using single.prems(1)[of kv f' ?R] c by (simp add: ends_number_newline_indent)
  have r: "skip ?R = CHR ''}'' # rest"
    by (simp add: skip_newline_indent skip_stop ws_def)
  have s: "skip (newline_indent (Suc n) @ render_string (fst kv) @ '': '' @ render m (snd kv) @ ?R)
      = quote # concat (map escape_char (fst kv)) @ quote # '': '' @ render m (snd kv) @ ?R"
    by (simp add: skip_newline_indent render_string_def skip_stop ws_def quote_def)
  have c2: "skip ('': '' @ render m (snd kv) @ ?R) = CHR '':'' # CHR '' '' # render m (snd kv) @ ?R"
    by (simp add: skip_stop ws_def)
  show ?case
    using s c2 v r parse_chars_escaped[of "fst kv" "'': '' @ render m (snd kv) @ ?R"]
    by (simp add: f parse_value_space)
next
  case (cons kv d)
  then obtain f' where f: "f = Suc f'" and c: "cost (snd kv) \<le> f'"
    and c': "sum_list (map (\<lambda>kv. Suc (cost (snd kv))) d) \<le> f'" by (cases f) auto
  obtain y ys where d: "d = y # ys" using cons.hyps by (cases d) auto
  let ?T = "join n (map (\<lambda>kv. render_string (fst kv) @ '': '' @ render m (snd kv)) d)
              @ newline_indent k @ CHR ''}'' # rest"
  let ?R = "CHR '','' # ?T"
  have v: "parse_value f' (render m (snd kv) @ ?R) = Some (snd kv, ?R)"
    using cons.prems(1)[of kv f' ?R] c by (simp add: ends_number_comma)
  have r: "skip ?R = ?R" by (simp add: skip_stop ws_def)
  have t: "parse_members f' ?T = Some (d, rest)"
    using cons.IH[of f'] cons.prems(1) c' by simp
  have s: "skip (newline_indent (Suc n) @ render_string (fst kv) @ '': '' @ render m (snd kv) @ ?R)
      = quote # concat (map escape_char (fst kv)) @ quote # '': '' @ render m (snd kv) @ ?R"
    by (simp add: skip_newline_indent render_string_def skip_stop ws_def quote_def)
  have c2: "skip ('': '' @ render m (snd kv) @ ?R) = CHR '':'' # CHR '' '' # render m (snd kv) @ ?R"
    by (simp add: skip_stop ws_def)
  show ?case
    using s c2 v r t parse_chars_escaped[of "fst kv" "'': '' @ render m (snd kv) @ ?R"]
    by (simp add: f d parse_value_space)
qed

lemma update_append_fresh:
  "k \<notin> fst ` set d \<Longrightarrow> AList.update k v d = d @ [(k, v)]"
  by (induction d) auto

lemma foldl_update_distinct:
  "distinct (map fst (acc @ xs)) \<Longrightarrow>
   foldl (\<lambda>d kv. AList.update (fst kv) (snd kv) d) acc xs = acc @ xs"
proof (induction xs arbitrary: acc)
  case Nil
  then show ?case by simp
next
  case (Cons x xs)
  have "fst x \<notin> fst ` set acc" using Cons.prems by auto
  then have u: "AList.update (fst x) (snd x) acc = acc @ [x]"
    by (simp add: update_append_fresh)
  have "distinct (map fst ((acc @ [x]) @ xs))" using Cons.prems by simp
  from Cons.IH[OF this] u show ?case by simp
qed

lemma dict_of_items_distinct: "distinct (map fst xs) \<Longrightarrow> dict_of_items xs = xs"
  using foldl_update_distinct[of "[]" xs] by (simp add: dict_of_items_def)

lemma parse_value_open_list:
  assumes "skip cs = a # as" "a \<noteq> CHR '']''"
  shows "parse_value (Suc f') (CHR ''['' # cs) = map_option (apfst PList) (parse_elems f' cs)"
proof -
  have "skip (CHR ''['' # cs) = CHR ''['' # cs" by (simp add: skip_stop ws_def)
  then show ?thesis using assms by (simp add: quote_def)
qed

lemma parse_value_open_dict:
  assumes "skip cs = a # as" "a \<noteq> CHR ''}''"
  shows "parse_value (Suc f') (CHR ''{'' # cs) =
     map_option (apfst (\<lambda>items. PDict (dict_of_items items))) (parse_members f' cs)"
proof -
  have "skip (CHR ''{'' # cs) = CHR ''{'' # cs" by (simp add: skip_stop ws_def)
  then show ?thesis using assms by (simp add: quote_def)
qed

lemma skip_join_first:
  "xs \<noteq> [] \<Longrightarrow> \<exists>t. skip (join n xs @ r) = skip (hd xs @ t)"
proof (induction xs rule: induct_list012)
  case 1
  then show ?case by simp
next
  case (2 x)
  then show ?case by (auto simp: skip_newline_indent)
next
  case (3 x y zs)
  have "skip (join n (x # y # zs) @ r) = skip (x @ ('','' @ join n (y # zs) @ r))"
    by (simp add: skip_newline_indent)
  then show ?case by auto
qed

lemma parse_value_render:
  "distinct_keys v \<Longrightarrow> cost v \<le> f \<Longrightarrow> ends_number rest \<Longrightarrow>
   parse_value f (render n v @ rest) = Some (v, rest)"
proof (induction v arbitrary: f n rest)
  case PNone
  then obtain f' where "f = Suc f'" by (cases f) auto
  then show ?case by (simp add: skip_stop ws_def)
next
  case (PInt i)
  then obtain f' where f: "f = Suc f'" by (cases f) auto
  have sv: "starts_value (render_int i @ rest)"
    using starts_value_render[of n "PInt i" rest] by simp
  then obtain c cs where r: "render_int i @ rest = c # cs" by (cases "render_int i @ rest") (auto simp: starts_value_def)
  have "is_digit c \<or> c = CHR ''-''"
  proof (cases "i < 0")
    case True
    then show ?thesis using r by (simp add: render_int_def)
  next
    case False
    obtain a as where d: "digits (nat i) = a # as"
      using digits_nonempty by (cases "digits (nat i)") auto
    then have "is_digit a" using digits_all[of "nat i"] by simp
    then show ?thesis using False r d by (simp add: render_int_def)
  qed
  then have ne: "c \<noteq> CHR ''n''" "c \<noteq> quote" "c \<noteq> CHR ''[''" "c \<noteq> CHR ''{''"
    by (auto simp: is_digit_def quote_def)
  have "skip (render_int i @ rest) = c # cs" using skip_starts_value[OF sv] r by simp
  then show ?case
    using ne parse_int_render[OF PInt.prems(3), of i] r by (simp add: f)
next
  case (PStr s)
  then obtain f' where f: "f = Suc f'" by (cases f) auto
  have "skip (render_string s @ rest) = quote # concat (map escape_char s) @ quote # rest"
    by (simp add: render_string_def skip_stop ws_def quote_def)
  then show ?case
    using parse_chars_escaped[of s rest] by (simp add: f quote_def)
next
  case (PList xs)
  then obtain f' where f: "f = Suc f'" and c: "sum_list (map (\<lambda>x. Suc (cost x)) xs) \<le> f'"
    by (cases f) auto
  show ?case
  proof (cases "xs = []")
    case True
    then show ?thesis by (simp add: f skip_stop ws_def quote_def)
  next
    case False
    let ?cs = "join n (map (render (Suc n)) xs) @ newline_indent n @ CHR '']'' # rest"
    have ih: "\<And>x g r. x \<in> set xs \<Longrightarrow> cost x \<le> g \<Longrightarrow> ends_number r \<Longrightarrow>
        parse_value g (render (Suc n) x @ r) = Some (x, r)"
      using PList.IH PList.prems(1) by (simp add: list_all_iff)
    have e: "parse_elems f' ?cs = Some (xs, rest)"
      using False ih c by (rule parse_elems_join)
    obtain x xs' where xs: "xs = x # xs'" using False by (cases xs) auto
    from skip_join_first[of "map (render (Suc n)) xs" n "newline_indent n @ CHR '']'' # rest"]
    obtain t where "skip ?cs = skip (render (Suc n) x @ t)" using xs by auto
    then have t: "skip ?cs = render (Suc n) x @ t"
      using skip_starts_value[OF starts_value_render[of "Suc n" x t]] by simp
    have "starts_value (render (Suc n) x @ t)" by (rule starts_value_render)
    then obtain a as where a: "skip ?cs = a # as" "a \<noteq> CHR '']''"
      using t by (cases "render (Suc n) x @ t") (auto simp: starts_value_def)
    have r: "render n (PList xs) @ rest = CHR ''['' # ?cs" using False by simp
    show ?thesis
      unfolding r f parse_value_open_list[OF a] e by simp
  qed
next
  case (PDict d)
  then obtain f' where f: "f = Suc f'"
    and c: "sum_list (map (\<lambda>kv. Suc (cost (snd kv))) d) \<le> f'"
    by (cases f) auto
  show ?case
  proof (cases "d = []")
    case True
    then show ?thesis by (simp add: f skip_stop ws_def quote_def dict_of_items_def)
  next
    case False
    let ?items = "map (\<lambda>kv. render_string (fst kv) @ '': '' @ render (Suc n) (snd kv)) d"
    let ?cs = "join n ?items @ newline_indent n @ CHR ''}'' # rest"
    have ih: "\<And>kv g r. kv \<in> set d \<Longrightarrow> cost (snd kv) \<le> g \<Longrightarrow> ends_number r \<Longrightarrow>
        parse_value g (render (Suc n) (snd kv) @ r) = Some (snd kv, r)"
    proof -
      fix kv g r
      assume kv: "kv \<in> set d" and g: "cost (snd kv) \<le> g" and r: "ends_number r"
      have "snd kv \<in> Basic_BNFs.snds kv" by (cases kv) simp
      moreover have "distinct_keys (snd kv)" using PDict.prems(1) kv by (simp add: list_all_iff)
      ultimately show "parse_value g (render (Suc n) (snd kv) @ r) = Some (snd kv, r)"
        using PDict.IH[OF kv _ _ g r] by simp
    qed
    have e: "parse_members f' ?cs = Some (d, rest)"
      using False ih c by (rule parse_members_join)
    obtain x d' where d: "d = x # d'" using False by (cases d) auto
    from skip_join_first[of ?items n "newline_indent n @ CHR ''}'' # rest"]
    obtain t where "skip ?cs = skip (hd ?items @ t)" using False by auto
    then have "skip ?cs = skip (render_string (fst x) @ '': '' @ render (Suc n) (snd x) @ t)"
      using d by simp
    then have a: "skip ?cs = quote # concat (map escape_char (fst x)) @ quote # '': '' @ render (Suc n) (snd x) @ t"
      "quote \<noteq> CHR ''}''"
      by (simp_all add: render_string_def skip_stop ws_def quote_def)
    have r: "render n (PDict d) @ rest = CHR ''{'' # ?cs" using False by simp
    have di: "dict_of_items d = d"
      using PDict.prems(1) by (simp add: dict_of_items_distinct)
    show ?thesis
      unfolding r f parse_value_open_dict[OF a] e by (simp add: di)
  qed
qed

lemma length_join_ge:
  "\<forall>x \<in> set xs. c x \<le> length (r x) \<Longrightarrow>
   sum_list (map (\<lambda>x. Suc (c x)) xs) \<le> length (join n (map r xs))"
proof (induction xs rule: induct_list012)
  case 1
  then show ?case by simp
next
  case (2 x)
  then show ?case by (simp add: newline_indent_def)
next
  case (3 x y zs)
  have a: "c x \<le> length (r x)" using "3.prems" by simp
  have "\<forall>x \<in> set (y # zs). c x \<le> length (r x)" using "3.prems" by simp
  then have "sum_list (map (\<lambda>x. Suc (c x)) (y # zs)) \<le> length (join n (map r (y # zs)))"
    by (rule "3.IH"(2))
  then show ?case using a by (simp add: newline_indent_def)
qed

lemma cost_le_length: "cost v \<le> length (render n v)"
proof (induction v arbitrary: n)
  case PNone
  then show ?case by simp
next
  case (PInt i)
  then show ?case using digits_nonempty by (simp add: render_int_def Suc_le_eq)
next
  case (PStr s)
  then show ?case by (simp add: render_string_def)
next
  case (PList xs)
  have "sum_list (map (\<lambda>x. Suc (cost x)) xs) \<le> length (join n (map (render (Suc n)) xs))"
    using PList.IH by (intro length_join_ge) simp
  then show ?case by simp
next
  case (PDict d)
  have "sum_list (map (\<lambda>kv. Suc (cost (snd kv))) d)
      \<le> length (join n (map (\<lambda>kv. render_string (fst kv) @ '': '' @ render (Suc n) (snd kv)) d))"
  proof (intro length_join_ge ballI)
    fix kv assume kv: "kv \<in> set d"
    have "snd kv \<in> Basic_BNFs.snds kv" by (cases kv) simp
    from PDict.IH[OF kv this, of "Suc n"]
    show "cost (snd kv) \<le> length (render_string (fst kv) @ '': '' @ render (Suc n) (snd kv))"
      by simp
  qed
  then show ?case by simp
qed

lemma json_parse_render:
  assumes "distinct_keys v"
  shows "json_parse (render 0 v) = Some v"
proof -
  have "cost v \<le> Suc (length (render 0 v))" using cost_le_length[of v 0] by simp
  from parse_value_render[OF assms this, of "[]" 0]
  show ?thesis by (simp add: json_parse_def ends_number_def skip_def)
qed

lemma distinct_keys_canon: "distinct_keys v \<Longrightarrow> distinct_keys (canon v)"
proof (induction v)
  case (PList xs)
  then show ?case by (auto simp: list_all_iff)
next
  case (PDict d)
  have k: "map fst (map (\<lambda>kv. (fst kv, canon (snd kv))) d) = map fst d" by simp
  let ?ys = "map (\<lambda>kv. (fst kv, canon (snd kv))) d"
  have "mset (sort_key fst ?ys) = mset ?ys" by simp
  then have "image_mset fst (mset (sort_key fst ?ys)) = image_mset fst (mset ?ys)" by simp
  then have "mset (map fst (sort_key fst ?ys)) = mset (map fst ?ys)"
    by (simp only: mset_map)
  then have "distinct (map fst (sort_key fst ?ys)) = distinct (map fst ?ys)"
    by (rule mset_eq_imp_distinct_iff)
  then have "distinct (map fst (sort_key fst (map (\<lambda>kv. (fst kv, canon (snd kv))) d)))"
    using PDict.prems by (simp add: comp_def)
  moreover have "list_all (\<lambda>kv. distinct_keys (snd kv)) (sort_key fst (map (\<lambda>kv. (fst kv, canon (snd kv))) d))"
  proof -
    have "\<And>kv. kv \<in> set d \<Longrightarrow> distinct_keys (canon (snd kv))"
    proof -
      fix kv assume kv: "kv \<in> set d"
      have "snd kv \<in> Basic_BNFs.snds kv" by (cases kv) simp
      moreover have "distinct_keys (snd kv)" using PDict.prems kv by (simp add: list_all_iff)
      ultimately show "distinct_keys (canon (snd kv))" using PDict.IH[OF kv] by simp
    qed
    then show ?thesis by (auto simp: list_all_iff)
  qed
  ultimately show ?case by simp
qed simp_all

lemma json_round_trip: "distinct_keys v \<Longrightarrow> json_parse (json_text v) = Some (canon v)"
  unfolding json_text_def by (rule json_parse_render) (rule distinct_keys_canon)

lemma filter_same_key:
  "distinct (map fst xs) \<Longrightarrow> k \<in> set xs \<Longrightarrow> filter (\<lambda>x. fst k = fst x) xs = [k]"
proof (induction xs)
  case Nil
  then show ?case by simp
next
  case (Cons a xs)
  show ?case
  proof (cases "k = a")
    case True
    have "filter (\<lambda>x. fst a = fst x) xs = []"
      using Cons.prems(1) by (auto simp: filter_empty_conv)
    then show ?thesis using True by simp
  next
    case False
    then have k: "k \<in> set xs" using Cons.prems(2) by simp
    then have "fst k \<noteq> fst a" using Cons.prems(1) by (metis distinct.simps(2) image_eqI list.simps(9) set_map)
    then show ?thesis using Cons.IH k Cons.prems(1) by simp
  qed
qed

lemma sort_key_same_items:
  assumes "distinct (map fst xs)" "distinct (map fst ys)" "set xs = set ys"
  shows "sort_key fst xs = sort_key fst ys"
proof (rule properties_for_sort_key)
  have dx: "distinct xs" and dy: "distinct ys" using assms(1,2) by (auto simp: distinct_map)
  show "mset (sort_key fst ys) = mset xs"
    using dx dy assms(3) by (simp add: set_eq_iff_mset_eq_distinct)
  show "sorted (map fst (sort_key fst ys))" by simp
  fix k assume "k \<in> set (sort_key fst ys)"
  then have ky: "k \<in> set ys" by simp
  then have kx: "k \<in> set xs" using assms(3) by simp
  have dsy: "distinct (map fst (sort_key fst ys))"
  proof -
    have "mset (sort_key fst ys) = mset ys" by simp
    then have "image_mset fst (mset (sort_key fst ys)) = image_mset fst (mset ys)" by simp
    then have "mset (map fst (sort_key fst ys)) = mset (map fst ys)" by (simp only: mset_map)
    then have "distinct (map fst (sort_key fst ys)) = distinct (map fst ys)"
      by (rule mset_eq_imp_distinct_iff)
    then show ?thesis using assms(2) by simp
  qed
  have "filter (\<lambda>x. fst k = fst x) (sort_key fst ys) = [k]"
    using dsy ky by (intro filter_same_key) simp_all
  moreover have "filter (\<lambda>x. fst k = fst x) xs = [k]"
    using assms(1) kx by (rule filter_same_key)
  ultimately show "filter (\<lambda>x. fst k = fst x) (sort_key fst ys) = filter (\<lambda>x. fst k = fst x) xs"
    by simp
qed

lemma canon_same_items:
  assumes "distinct (map fst d1)" "distinct (map fst d2)" "set d1 = set d2"
  shows "canon (PDict d1) = canon (PDict d2)"
proof -
  let ?f = "\<lambda>kv. (fst kv, canon (snd kv))"
  have "distinct (map fst (map ?f d1))" "distinct (map fst (map ?f d2))"
    using assms(1,2) by (simp_all add: comp_def)
  moreover have "set (map ?f d1) = set (map ?f d2)" using assms(3) by simp
  ultimately have "sort_key fst (map ?f d1) = sort_key fst (map ?f d2)"
    by (rule sort_key_same_items)
  then show ?thesis by simp
qed

lemma canon_dict_lookup:
  assumes "distinct (map fst d)"
  shows "\<exists>d'. canon (PDict d) = PDict d' \<and> sorted (map fst d')
     \<and> map_of d' = map_option canon \<circ> map_of d"
proof -
  let ?ys = "map (\<lambda>kv. (fst kv, canon (snd kv))) d"
  let ?d' = "sort_key fst ?ys"
  have dy: "distinct (map fst ?ys)" using assms by (simp add: comp_def)
  have ds: "distinct (map fst ?d')"
  proof -
    have "mset ?d' = mset ?ys" by simp
    then have "image_mset fst (mset ?d') = image_mset fst (mset ?ys)" by simp
    then have "mset (map fst ?d') = mset (map fst ?ys)" by (simp only: mset_map)
    then have "distinct (map fst ?d') = distinct (map fst ?ys)" by (rule mset_eq_imp_distinct_iff)
    then show ?thesis using dy by simp
  qed
  have "map_of ?d' = map_of ?ys"
    using ds dy by (simp add: map_of_inject_set)
  moreover have "map_of ?ys = map_option canon \<circ> map_of d"
    by (induction d) (auto simp: fun_eq_iff)
  ultimately show ?thesis by simp
qed

lemma same_value_canon:
  "distinct_keys v1 \<Longrightarrow> distinct_keys v2 \<Longrightarrow> same_value v1 v2 \<Longrightarrow> canon v1 = canon v2"
proof (induction v1 arbitrary: v2)
  case PNone
  then show ?case by (cases v2) simp_all
next
  case (PInt i)
  then show ?case by (cases v2) simp_all
next
  case (PStr a)
  then show ?case by (cases v2) simp_all
next
  case (PList xs)
  from PList.prems(3) obtain ys where v2: "v2 = PList ys" by (cases v2) simp_all
  have r: "list_all2 same_value xs ys" using PList.prems(3) v2 by simp
  then have len: "length xs = length ys" by (rule list_all2_lengthD)
  have "map canon xs = map canon ys"
  proof (rule nth_equalityI)
    show "length (map canon xs) = length (map canon ys)" using len by simp
    fix i assume "i < length (map canon xs)"
    then have i: "i < length xs" by simp
    then have iy: "i < length ys" using len by simp
    have "xs ! i \<in> set xs" using i by simp
    moreover have "distinct_keys (xs ! i)" using PList.prems(1) i by (simp add: list_all_length)
    moreover have "distinct_keys (ys ! i)"
      using PList.prems(2) v2 iy by (simp add: list_all_length)
    moreover have "same_value (xs ! i) (ys ! i)" using r i by (rule list_all2_nthD)
    ultimately have "canon (xs ! i) = canon (ys ! i)" by (rule PList.IH)
    then show "map canon xs ! i = map canon ys ! i" using i iy by simp
  qed
  then show ?case using v2 by simp
next
  case (PDict d1)
  from PDict.prems(3) obtain d2 where v2: "v2 = PDict d2" by (cases v2) simp_all
  let ?f = "\<lambda>kv. (fst kv, canon (snd kv))"
  have k1: "distinct (map fst d1)" using PDict.prems(1) by simp
  have k2: "distinct (map fst d2)" using PDict.prems(2) v2 by simp
  have keys: "set (map fst d1) = set (map fst d2)" using PDict.prems(3) v2 by simp
  have step: "\<exists>v'. map_of d2 k = Some v' \<and> canon v = canon v'" if "(k, v) \<in> set d1" for k v
  proof -
    from PDict.prems(3) v2 that obtain v' where
      m: "map_of d2 k = Some v'" and sv: "same_value v v'"
      by (fastforce simp: list_all_iff split: option.splits)
    have "v \<in> Basic_BNFs.snds (k, v)" by simp
    moreover have "distinct_keys v" using PDict.prems(1) that by (fastforce simp: list_all_iff)
    moreover have "distinct_keys v'"
      using PDict.prems(2) v2 map_of_SomeD[OF m] by (fastforce simp: list_all_iff)
    ultimately have "canon v = canon v'" using sv PDict.IH[OF that] by blast
    then show ?thesis using m by blast
  qed
  have "set (map ?f d1) = set (map ?f d2)"
  proof (intro set_eqI iffI)
    fix x assume "x \<in> set (map ?f d1)"
    then obtain k v where kv: "(k, v) \<in> set d1" and x: "x = (k, canon v)" by auto
    from step[OF kv] obtain v' where m: "map_of d2 k = Some v'" and c: "canon v = canon v'"
      by blast
    from map_of_SomeD[OF m] have "(k, v') \<in> set d2" .
    then have "?f (k, v') \<in> set (map ?f d2)" by force
    then show "x \<in> set (map ?f d2)" using x c by simp
  next
    fix x assume "x \<in> set (map ?f d2)"
    then obtain k v' where kv': "(k, v') \<in> set d2" and x: "x = (k, canon v')" by auto
    then have "k \<in> set (map fst d2)" by force
    then have "k \<in> set (map fst d1)" using keys by simp
    then obtain v where kv: "(k, v) \<in> set d1" by auto
    from step[OF kv] obtain v'' where m: "map_of d2 k = Some v''" and c: "canon v = canon v''"
      by blast
    have "map_of d2 k = Some v'" using k2 kv' by simp
    then have "v'' = v'" using m by simp
    then have "?f (k, v) = x" using x c by simp
    moreover have "?f (k, v) \<in> set (map ?f d1)" using kv by force
    ultimately show "x \<in> set (map ?f d1)" by simp
  qed
  moreover have "distinct (map fst (map ?f d1))" "distinct (map fst (map ?f d2))"
    using k1 k2 by (simp_all add: comp_def)
  ultimately have "sort_key fst (map ?f d1) = sort_key fst (map ?f d2)"
    by (intro sort_key_same_items)
  then show ?case using v2 by simp
qed

lemma canon_same_value: "distinct_keys v \<Longrightarrow> same_value (canon v) v"
proof (induction v)
  case (PList xs)
  have "list_all2 same_value (map canon xs) xs"
  proof (rule list_all2_all_nthI)
    show "length (map canon xs) = length xs" by simp
    fix i assume "i < length (map canon xs)"
    then have i: "i < length xs" by simp
    then have "xs ! i \<in> set xs" by simp
    moreover have "distinct_keys (xs ! i)" using PList.prems i by (simp add: list_all_length)
    ultimately have "same_value (canon (xs ! i)) (xs ! i)" by (rule PList.IH)
    then show "same_value (map canon xs ! i) (xs ! i)" using i by simp
  qed
  then show ?case by simp
next
  case (PDict d)
  let ?f = "\<lambda>kv. (fst kv, canon (snd kv))"
  let ?d' = "sort_key fst (map ?f d)"
  have k: "distinct (map fst d)" using PDict.prems by simp
  have "set (map fst ?d') = set (map fst d)" by (simp add: image_image)
  moreover have "list_all (\<lambda>kv. case map_of d (fst kv) of
                          None \<Rightarrow> False
                        | Some v' \<Rightarrow> same_value (snd kv) v') ?d'"
    unfolding list_all_iff
  proof
    fix x assume "x \<in> set ?d'"
    then obtain kv where kv: "kv \<in> set d" and x: "x = ?f kv" by auto
    have "(fst kv, snd kv) \<in> set d" using kv by simp
    then have m: "map_of d (fst kv) = Some (snd kv)" using k by simp
    have "snd kv \<in> Basic_BNFs.snds kv" by (cases kv) simp
    moreover have "distinct_keys (snd kv)" using PDict.prems kv by (simp add: list_all_iff)
    ultimately have "same_value (canon (snd kv)) (snd kv)" using PDict.IH[OF kv] by simp
    then show "case map_of d (fst x) of None \<Rightarrow> False | Some v' \<Rightarrow> same_value (snd x) v'"
      using m x by simp
  qed
  ultimately show ?case by simp
qed simp_all

text \<open>
  C8, for the JSON text as modelled from the spec. Persisting a value whose dicts have
  each key once and then loading the file reproduces the value: the index read back by
  \<^verbatim>\<open>load_index_from_cache\<close>, and what deserializing the text returned by
  \<^verbatim>\<open>get_inventory_from_cache\<close> gives, is the persisted value with the items of every
  dict in key order, which is the same snapshot as the persisted value at every level of
  nesting (and, as a dict, maps the same keys to the same values). The persisted text
  does not depend on the order of the items in memory: two values that are the same
  snapshot, whatever the order of the items of their dicts at any level, have the same
  text.
\<close>

theorem persist_load_round_trip:
  assumes dumps: "json_dumps w True = json_text"
    and loads: "json_loads w = json_loads_model"
    and wf: "distinct_keys v"
  shows "load_index_from_cache cfg w (write_to_cache w v (cache_path_index cfg) s) =
           (Ret (), (write_to_cache w v (cache_path_index cfg) s)\<lparr>index := canon v\<rparr>)
     \<and> (\<exists>t. get_inventory_from_cache cfg (write_to_cache w v (cache_path_cache cfg) s) =
                (Ret t, write_to_cache w v (cache_path_cache cfg) s)
            \<and> json_loads w t = Inr (canon v))
     \<and> same_value (canon v) v
     \<and> (\<forall>d. v = PDict d \<longrightarrow>
            (\<exists>d'. canon v = PDict d' \<and> sorted (map fst d')
                \<and> map_of d' = map_option canon \<circ> map_of d))
     \<and> (\<forall>d1 d2. distinct (map fst d1) \<and> distinct (map fst d2) \<and> set d1 = set d2 \<longrightarrow>
            json_format_dict w (PDict d1) True = json_format_dict w (PDict d2) True)
     \<and> (\<forall>v1 v2. distinct_keys v1 \<and> distinct_keys v2 \<and> same_value v1 v2 \<longrightarrow>
            json_format_dict w v1 True = json_format_dict w v2 True)"
proof -
  have rt: "json_loads w (json_dumps w True v) = Inr (canon v)"
    using json_round_trip[OF wf] by (simp add: dumps loads json_loads_model_def)
  have a: "load_index_from_cache cfg w (write_to_cache w v (cache_path_index cfg) s) =
           (Ret (), (write_to_cache w v (cache_path_index cfg) s)\<lparr>index := canon v\<rparr>)"
    using rt by (simp add: load_index_from_cache_def write_to_cache_def json_format_dict_def)
  have b: "\<exists>t. get_inventory_from_cache cfg (write_to_cache w v (cache_path_cache cfg) s) =
                (Ret t, write_to_cache w v (cache_path_cache cfg) s)
            \<and> json_loads w t = Inr (canon v)"
    using rt by (simp add: get_inventory_from_cache_def write_to_cache_def json_format_dict_def)
  have c: "\<forall>d. v = PDict d \<longrightarrow>
            (\<exists>d'. canon v = PDict d' \<and> sorted (map fst d')
                \<and> map_of d' = map_option canon \<circ> map_of d)"
  proof (intro allI impI)
    fix d assume "v = PDict d"
    then have "distinct (map fst d)" using wf by simp
    from canon_dict_lookup[OF this] \<open>v = PDict d\<close>
    show "\<exists>d'. canon v = PDict d' \<and> sorted (map fst d')
                \<and> map_of d' = map_option canon \<circ> map_of d" by simp
  qed
  have d: "\<forall>d1 d2. distinct (map fst d1) \<and> distinct (map fst d2) \<and> set d1 = set d2 \<longrightarrow>
            json_format_dict w (PDict d1) True = json_format_dict w (PDict d2) True"
  proof (intro allI impI)
    fix d1 d2 :: "(string \<times> pyval) list"
    assume h: "distinct (map fst d1) \<and> distinct (map fst d2) \<and> set d1 = set d2"
    then have "canon (PDict d1) = canon (PDict d2)" by (intro canon_same_items) simp_all
    then show "json_format_dict w (PDict d1) True = json_format_dict w (PDict d2) True"
      unfolding json_format_dict_def dumps json_text_def by simp
  qed
  have e: "\<forall>v1 v2. distinct_keys v1 \<and> distinct_keys v2 \<and> same_value v1 v2 \<longrightarrow>
            json_format_dict w v1 True = json_format_dict w v2 True"
  proof (intro allI impI)
    fix v1 v2 assume h: "distinct_keys v1 \<and> distinct_keys v2 \<and> same_value v1 v2"
    then have "canon v1 = canon v2" by (intro same_value_canon) simp_all
    then show "json_format_dict w v1 True = json_format_dict w v2 True"
      unfolding json_format_dict_def dumps json_text_def by simp
  qed
  from a b c d e canon_same_value[OF wf] show ?thesis by blast
qed

text \<open>The theorem at an index of two hosts held in memory in descending key order, and at
  an inventory snapshot held in two orders that differ in the top-level dict, in
  \<^verbatim>\<open>_meta.hostvars\<close> and in the variables of one host.\<close>

theorem persist_load_round_trip_witness:
  "load_index_from_cache ex_settings ex_json
       (write_to_cache ex_json ex_index (cache_path_index ex_settings) (init_state Map.empty)) =
     (Ret (),
      (write_to_cache ex_json ex_index (cache_path_index ex_settings) (init_state Map.empty))
        \<lparr>index := PDict [(''10.0.0.1'', PList [PStr ''appA'', PStr ''n1'']),
                         (''10.0.0.9'', PList [PStr ''old'', PStr ''n9''])]\<rparr>)
   \<and> json_format_dict ex_json ex_index True =
       json_format_dict ex_json
         (PDict [(''10.0.0.1'', PList [PStr ''appA'', PStr ''n1'']),
                 (''10.0.0.9'', PList [PStr ''old'', PStr ''n9''])]) True
   \<and> ex_snapshot \<noteq> ex_snapshot_reordered
   \<and> json_format_dict ex_json ex_snapshot True = json_format_dict ex_json ex_snapshot_reordered True"
proof -
  have h1: "json_dumps ex_json True = json_text" by (simp add: ex_json_def)
  have h2: "json_loads ex_json = json_loads_model" by (simp add: ex_json_def)
  have h3: "distinct_keys ex_index" by (simp add: ex_index_def)
  have c: "canon ex_index = PDict [(''10.0.0.1'', PList [PStr ''appA'', PStr ''n1'']),
                         (''10.0.0.9'', PList [PStr ''old'', PStr ''n9''])]"
    by (simp add: ex_index_def)
  have o: "distinct (map fst [(''10.0.0.9'', PList [PStr ''old'', PStr ''n9'']),
                     (''10.0.0.1'', PList [PStr ''appA'', PStr ''n1''])])
     \<and> distinct (map fst [(''10.0.0.1'', PList [PStr ''appA'', PStr ''n1'']),
                 (''10.0.0.9'', PList [PStr ''old'', PStr ''n9''])])
     \<and> set [(''10.0.0.9'', PList [PStr ''old'', PStr ''n9'']),
                     (''10.0.0.1'', PList [PStr ''appA'', PStr ''n1''])]
       = set [(''10.0.0.1'', PList [PStr ''appA'', PStr ''n1'']),
                 (''10.0.0.9'', PList [PStr ''old'', PStr ''n9''])]"
    by auto
  have n: "distinct_keys ex_snapshot \<and> distinct_keys ex_snapshot_reordered
     \<and> same_value ex_snapshot ex_snapshot_reordered"
    by (simp add: ex_snapshot_def ex_snapshot_reordered_def insert_commute)
  have ne: "ex_snapshot \<noteq> ex_snapshot_reordered"
    by (simp add: ex_snapshot_def ex_snapshot_reordered_def)
  note t = persist_load_round_trip[OF h1 h2 h3, of ex_settings "init_state Map.empty"]
  from t have "load_index_from_cache ex_settings ex_json
       (write_to_cache ex_json ex_index (cache_path_index ex_settings) (init_state Map.empty)) =
     (Ret (),
      (write_to_cache ex_json ex_index (cache_path_index ex_settings) (init_state Map.empty))
        \<lparr>index := canon ex_index\<rparr>)" by blast
  moreover from t o have "json_format_dict ex_json ex_index True =
       json_format_dict ex_json
         (PDict [(''10.0.0.1'', PList [PStr ''appA'', PStr ''n1'']),
                 (''10.0.0.9'', PList [PStr ''old'', PStr ''n9''])]) True"
    unfolding ex_index_def by blast
  moreover from t n have "json_format_dict ex_json ex_snapshot True
      = json_format_dict ex_json ex_snapshot_reordered True" by blast
  ultimately show ?thesis using ne unfolding c by blast
qed

section \<open>Looking up one host\<close>

lemma resolve_host_state: "snd (resolve_host h s) = s"
  by (simp add: resolve_host_def split: sum.splits prod.splits)

lemma get_host_info_refresh_le:
  "count_list (trace (snd (get_host_info cfg w h s))) Refresh \<le> count_list (trace s) Refresh + 1"
proof -
  obtain r s1 where l: "load_index_if_empty cfg w s = (r, s1)"
    by (cases "load_index_if_empty cfg w s")
  have t1: "trace s1 = trace s" using load_index_if_empty_trace[of cfg w s] l by simp
  obtain r2 s2 where d: "do_api_calls_update_cache cfg w s1 = (r2, s2)"
    by (cases "do_api_calls_update_cache cfg w s1")
  from do_api_trace[of cfg w s1] d obtain tr where
    "trace s2 = trace s1 @ Refresh # tr" "Refresh \<notin> set tr" by auto
  then have t2: "count_list (trace s2) Refresh = count_list (trace s) Refresh + 1"
    by (simp add: t1 count_list_0_iff)
  have "snd (get_host_info cfg w h s) = s1 \<or> snd (get_host_info cfg w h s) = s2"
    using l d by (auto simp: get_host_info_def resolve_host_state
        split: res.splits sum.splits bool.splits)
  then show ?thesis using t1 t2 by auto
qed

text \<open>
  C6 (as amended). When the index is there (in memory, or loaded without an exception
  from the index file when the one in memory is empty), the address is absent from it,
  the refresh that \<^verbatim>\<open>get_host_info\<close> then performs returns, and the address is still
  absent, the call returns the JSON text of the empty dict, and exactly one
  \<^verbatim>\<open>do_api_calls_update_cache\<close> has been called. An exception of the index load leaves
  \<^verbatim>\<open>get_host_info\<close> with no refresh, an exception of the refresh leaves it after that
  one refresh, and no call of \<^verbatim>\<open>get_host_info\<close> refreshes more than once.
\<close>

theorem lookup_miss_returns_empty:
  "(load_index_if_empty cfg w s = (Ret (), s1)
      \<and> py_contains (index s1) h = Inr False
      \<and> do_api_calls_update_cache cfg w s1 = (Ret (), s2)
      \<and> py_contains (index s2) h = Inr False
    \<longrightarrow> get_host_info cfg w h s = (Ret (json_format_dict w (PDict []) True), s2)
        \<and> count_list (trace s2) Refresh = count_list (trace s) Refresh + 1)
   \<and> (load_index_if_empty cfg w s = (Raise e, s1)
    \<longrightarrow> get_host_info cfg w h s = (Raise e, s1)
        \<and> count_list (trace s1) Refresh = count_list (trace s) Refresh)
   \<and> (load_index_if_empty cfg w s = (Ret (), s1)
      \<and> py_contains (index s1) h = Inr False
      \<and> do_api_calls_update_cache cfg w s1 = (Raise e, s2)
    \<longrightarrow> get_host_info cfg w h s = (Raise e, s2)
        \<and> count_list (trace s2) Refresh = count_list (trace s) Refresh + 1)
   \<and> count_list (trace (snd (get_host_info cfg w h s))) Refresh
        \<le> count_list (trace s) Refresh + 1"
proof -
  have t1: "trace s1 = trace s" if "load_index_if_empty cfg w s = (r, s1)" for r
    using load_index_if_empty_trace[of cfg w s] that by simp
  have t2: "count_list (trace s2) Refresh = count_list (trace s) Refresh + 1"
    if "load_index_if_empty cfg w s = (r, s1)" "do_api_calls_update_cache cfg w s1 = (r2, s2)"
    for r r2
  proof -
    from do_api_trace[of cfg w s1] that(2) obtain tr where
      "trace s2 = trace s1 @ Refresh # tr" "Refresh \<notin> set tr" by auto
    then show ?thesis using t1[OF that(1)] by (simp add: count_list_0_iff)
  qed
  have a: "get_host_info cfg w h s = (Ret (json_format_dict w (PDict []) True), s2)
        \<and> count_list (trace s2) Refresh = count_list (trace s) Refresh + 1"
    if "load_index_if_empty cfg w s = (Ret (), s1)" "py_contains (index s1) h = Inr False"
      "do_api_calls_update_cache cfg w s1 = (Ret (), s2)" "py_contains (index s2) h = Inr False"
    using that t2[OF that(1) that(3)] by (simp add: get_host_info_def)
  have b: "get_host_info cfg w h s = (Raise e, s1)
        \<and> count_list (trace s1) Refresh = count_list (trace s) Refresh"
    if "load_index_if_empty cfg w s = (Raise e, s1)"
    using that t1[OF that] by (simp add: get_host_info_def)
  have c: "get_host_info cfg w h s = (Raise e, s2)
        \<and> count_list (trace s2) Refresh = count_list (trace s) Refresh + 1"
    if "load_index_if_empty cfg w s = (Ret (), s1)" "py_contains (index s1) h = Inr False"
      "do_api_calls_update_cache cfg w s1 = (Raise e, s2)"
    using that t2[OF that(1) that(3)] by (simp add: get_host_info_def)
  from a b c get_host_info_refresh_le[of cfg w h s] show ?thesis by blast
qed

text \<open>The theorem at an index in memory that knows another host, for an address that the
  provider's listing does not hold either.\<close>

theorem lookup_miss_returns_empty_witness:
  "fst (get_host_info ex_settings ex_up ''10.0.0.2'' ex_state) = Ret ''{}''
   \<and> count_list (trace (snd (get_host_info ex_settings ex_up ''10.0.0.2'' ex_state))) Refresh = 1
   \<and> index (snd (get_host_info ex_settings ex_up ''10.0.0.2'' ex_state)) =
       PDict [(''10.0.0.9'', PList [PStr ''old'', PStr ''n9'']),
              (''10.0.0.1'', PList [PStr ''appA'', PStr ''n1''])]"
proof -
  let ?s2 = "snd (do_api_calls_update_cache ex_settings ex_up ex_state)"
  have h1: "load_index_if_empty ex_settings ex_up ex_state = (Ret (), ex_state)"
    by (simp add: load_index_if_empty_def py_len_def ex_state_def)
  have h2: "py_contains (index ex_state) ''10.0.0.2'' = Inr False"
    by (simp add: py_contains_def ex_state_def)
  have "fst (do_api_calls_update_cache ex_settings ex_up ex_state) = Ret ()"
    by (simp add: ex_up_def ex_state_def ex_defs session_defs grouping_defs init_state_def
        empty_inventory_def)
  then have h3: "do_api_calls_update_cache ex_settings ex_up ex_state = (Ret (), ?s2)"
    by (metis prod.collapse)
  have i2: "index ?s2 = PDict [(''10.0.0.9'', PList [PStr ''old'', PStr ''n9'']),
              (''10.0.0.1'', PList [PStr ''appA'', PStr ''n1''])]"
    by (simp add: ex_up_def ex_state_def ex_defs session_defs grouping_defs init_state_def
        empty_inventory_def)
  have h4: "py_contains (index ?s2) ''10.0.0.2'' = Inr False"
    unfolding i2 by (simp add: py_contains_def)
  have t0: "trace ex_state = []" by (simp add: ex_state_def init_state_def)
  have j: "json_format_dict ex_up (PDict []) True = ''{}''"
    by (simp add: json_format_dict_def ex_up_def ex_extern_def)
  from lookup_miss_returns_empty[where cfg = ex_settings and w = ex_up and s = ex_state
      and ?s1.0 = ex_state and h = "''10.0.0.2''" and ?s2.0 = ?s2] h1 h2 h3 h4
  have "get_host_info ex_settings ex_up ''10.0.0.2'' ex_state
          = (Ret (json_format_dict ex_up (PDict []) True), ?s2)
        \<and> count_list (trace ?s2) Refresh = count_list (trace ex_state) Refresh + 1"
    by blast
  then show ?thesis by (simp add: i2 t0 j)
qed

text \<open>
  C6 as stated has \<^verbatim>\<open>get_host_info\<close> never raise for an address absent before and after
  the refresh. With \<^verbatim>\<open>10.0.0.2\<close> absent from the index in memory and the provider down
  for the listing, \<^verbatim>\<open>get_host_info\<close> raises \<^verbatim>\<open>AttributeError\<close> after one refresh, the
  address still absent; with an empty index and no index file it raises \<^verbatim>\<open>IOError\<close>
  before any refresh.
\<close>

theorem lookup_miss_raises_counterexample:
  "py_contains (index ex_state) ''10.0.0.2'' = Inr False
   \<and> fst (get_host_info ex_settings ex_down ''10.0.0.2'' ex_state) = Raise AttributeError
   \<and> py_contains (index (snd (get_host_info ex_settings ex_down ''10.0.0.2'' ex_state)))
         ''10.0.0.2'' = Inr False
   \<and> count_list (trace (snd (get_host_info ex_settings ex_down ''10.0.0.2'' ex_state))) Refresh = 1
   \<and> get_host_info ex_settings ex_up ''10.0.0.2'' (init_state Map.empty)
       = (Raise IOError, init_state Map.empty)"
proof -
  have a: "py_contains (index ex_state) ''10.0.0.2'' = Inr False"
    by (simp add: py_contains_def ex_state_def)
  have l: "load_index_if_empty ex_settings ex_down ex_state = (Ret (), ex_state)"
    by (simp add: load_index_if_empty_def py_len_def ex_state_def)
  have r: "fst (do_api_calls_update_cache ex_settings ex_down ex_state) = Raise AttributeError"
    by (simp add: ex_down_def ex_state_def ex_defs session_defs grouping_defs init_state_def
        empty_inventory_def)
  have i: "index (snd (do_api_calls_update_cache ex_settings ex_down ex_state)) = index ex_state"
    by (simp add: ex_down_def ex_state_def ex_defs session_defs grouping_defs init_state_def
        empty_inventory_def)
  have t: "count_list (trace (snd (do_api_calls_update_cache ex_settings ex_down ex_state))) Refresh = 1"
    by (simp add: ex_down_def ex_state_def ex_defs session_defs grouping_defs init_state_def
        empty_inventory_def)
  have g: "get_host_info ex_settings ex_down ''10.0.0.2'' ex_state
      = (Raise AttributeError, snd (do_api_calls_update_cache ex_settings ex_down ex_state))"
    using l a r
    by (cases "do_api_calls_update_cache ex_settings ex_down ex_state")
       (simp add: get_host_info_def)
  have n: "get_host_info ex_settings ex_up ''10.0.0.2'' (init_state Map.empty)
       = (Raise IOError, init_state Map.empty)"
    by (simp add: get_host_info_def load_index_if_empty_def load_index_from_cache_def
        py_len_def init_state_def)
  from a g i t n show ?thesis by simp
qed

text \<open>
  C7 says that for an address in the index \<^verbatim>\<open>get_host_info\<close> returns the host's
  variables. The source calls \<^verbatim>\<open>self.get_node\<close>, which the class does not define: with
  \<^verbatim>\<open>10.0.0.1\<close> in the index, \<^verbatim>\<open>get_host_info\<close> raises \<^verbatim>\<open>AttributeError\<close>.
\<close>

theorem get_host_info_present_raises:
  "get_host_info ex_settings (ex_extern (Inl IOError)) ''10.0.0.1''
     ((init_state Map.empty)\<lparr>index := PDict [(''10.0.0.1'', PList [PStr ''appA'', PStr ''n1''])]\<rparr>)
   = (Raise AttributeError,
      (init_state Map.empty)\<lparr>index := PDict [(''10.0.0.1'', PList [PStr ''appA'', PStr ''n1''])]\<rparr>)"
  by (simp add: get_host_info_def load_index_if_empty_def py_len_def py_contains_def resolve_host_def
      py_getitem_def unpack2_def init_state_def)

text \<open>\<^verbatim>\<open>get_host_info\<close> returns nothing but the JSON text of the empty dict.\<close>

lemma get_host_info_only_empty:
  "get_host_info cfg w h s = (Ret out, s') \<Longrightarrow> out = json_format_dict w (PDict []) True"
  by (auto simp: get_host_info_def resolve_host_def
      split: prod.splits res.splits sum.splits bool.splits if_splits)

section \<open>The toggle \<^verbatim>\<open>group_by_environment_id\<close>\<close>

lemmas branch_congs = option.case_cong if_cong sum.case_cong prod.case_cong res.case_cong

lemma toggle_is_cache_valid:
  "is_cache_valid (cfg\<lparr>group_by_environment_id := b\<rparr>) w s = is_cache_valid cfg w s"
  by (simp add: is_cache_valid_def Let_def cong: branch_congs)

lemma toggle_map_node_class:
  "map_node_class (cfg\<lparr>group_by_environment_id := b\<rparr>) nt = map_node_class cfg nt"
  by (simp add: map_node_class_def)

lemma toggle_get_node_hostvars:
  "get_node_hostvars (cfg\<lparr>group_by_environment_id := b\<rparr>) ev nd = get_node_hostvars cfg ev nd"
  by (simp add: get_node_hostvars_def)

lemma toggle_add_node:
  "add_node (cfg\<lparr>group_by_environment_id := b\<rparr>) ev nd s = add_node cfg ev nd s"
  by (simp add: add_node_def toggle_map_node_class toggle_get_node_hostvars cong: branch_congs)

lemma toggle_add_nodes:
  "add_nodes (cfg\<lparr>group_by_environment_id := b\<rparr>) ev nds s = add_nodes cfg ev nds s"
  by (induction nds arbitrary: s) (simp_all add: toggle_add_node cong: branch_congs)

lemma toggle_add_environment:
  "add_environment (cfg\<lparr>group_by_environment_id := b\<rparr>) e s = add_environment cfg e s"
  by (simp add: add_environment_def toggle_add_nodes cong: branch_congs)

lemma toggle_add_environments:
  "add_environments (cfg\<lparr>group_by_environment_id := b\<rparr>) envs s = add_environments cfg envs s"
  by (induction envs arbitrary: s) (simp_all add: toggle_add_environment cong: branch_congs)

lemma toggle_login:
  "login (cfg\<lparr>group_by_environment_id := b\<rparr>) w s = login cfg w s"
  by (simp add: login_def Let_def cong: branch_congs)

lemma toggle_logout:
  "logout (cfg\<lparr>group_by_environment_id := b\<rparr>) w s = logout cfg w s"
  by (simp add: logout_def Let_def cong: branch_congs)

lemma toggle_fetch_and_group:
  "fetch_and_group (cfg\<lparr>group_by_environment_id := b\<rparr>) w tok s = fetch_and_group cfg w tok s"
  by (simp add: fetch_and_group_def Let_def toggle_add_environments cong: branch_congs)

lemma toggle_get_environments:
  "get_environments (cfg\<lparr>group_by_environment_id := b\<rparr>) w s = get_environments cfg w s"
  by (simp add: get_environments_def toggle_login toggle_logout toggle_fetch_and_group
      cong: branch_congs)

lemma toggle_do_api:
  "do_api_calls_update_cache (cfg\<lparr>group_by_environment_id := b\<rparr>) w s =
   do_api_calls_update_cache cfg w s"
  by (simp add: do_api_calls_update_cache_def Let_def toggle_get_environments cong: branch_congs)

lemma toggle_load_index:
  "load_index_if_empty (cfg\<lparr>group_by_environment_id := b\<rparr>) w s = load_index_if_empty cfg w s"
  by (simp add: load_index_if_empty_def load_index_from_cache_def cong: branch_congs)

lemma toggle_get_host_info:
  "get_host_info (cfg\<lparr>group_by_environment_id := b\<rparr>) w h s = get_host_info cfg w h s"
  by (simp add: get_host_info_def toggle_load_index toggle_do_api cong: branch_congs bool.case_cong)

lemma toggle_get_inventory_from_cache:
  "get_inventory_from_cache (cfg\<lparr>group_by_environment_id := b\<rparr>) s = get_inventory_from_cache cfg s"
  by (simp add: get_inventory_from_cache_def)

lemma toggle_run:
  "run (cfg\<lparr>group_by_environment_id := b\<rparr>) a w fs = run cfg a w fs"
  by (simp add: run_def Let_def toggle_do_api toggle_get_host_info toggle_is_cache_valid
      toggle_get_inventory_from_cache cong: branch_congs list.case_cong)

text \<open>
  C10. The value of \<^verbatim>\<open>group_by_environment_id\<close> changes nothing: two runs that differ only
  in it print the same text (or raise the same exception) and leave the same inventory,
  index, files and trace; the same holds for the build loop, a refresh and a lookup from
  any state.
\<close>

theorem group_by_environment_id_unread:
  "run (cfg\<lparr>group_by_environment_id := b\<rparr>) a w fs = run cfg a w fs
   \<and> add_environments (cfg\<lparr>group_by_environment_id := b\<rparr>) envs s = add_environments cfg envs s
   \<and> do_api_calls_update_cache (cfg\<lparr>group_by_environment_id := b\<rparr>) w s = do_api_calls_update_cache cfg w s
   \<and> get_host_info (cfg\<lparr>group_by_environment_id := b\<rparr>) w h s = get_host_info cfg w h s"
  by (simp add: toggle_run toggle_add_environments toggle_do_api toggle_get_host_info)

end
